theory Spec2Isabelle
  imports Main "HOL-Library.Word" "HOL-Library.AList" "HOL-Library.Sublist"
begin

section \<open>Text: Python strings, UTF-8, newlines\<close>

text \<open>
  A Python \<open>str\<close> is a sequence of code points; a file holds bytes. The source opens
  every file in text mode with \<open>encoding='utf-8'\<close>, so the codec and the newline
  handling of text mode are part of what the program does. The platform is POSIX:
  the path separator is \<open>/\<close> and \<open>os.linesep\<close> is a single line feed, so writing
  translates nothing.
\<close>

type_synonym pystr = "nat list"
type_synonym byte = "8 word"
type_synonym path = "pystr list"

definition lit :: "string \<Rightarrow> pystr" where
  "lit s = map of_char s"

datatype error =
    AttributeError | TypeError
  | FileNotFoundError | NotADirectoryError | IsADirectoryError | FileExistsError
  | UnicodeDecodeError | UnicodeEncodeError | JSONDecodeError

text \<open>The \<open>errors=\<close> argument of \<open>open\<close>: the default is strict.\<close>

datatype errors = Strict | Ignore | Replace

definition is_cont :: "nat \<Rightarrow> bool" where
  "is_cont b = (128 \<le> b \<and> b \<le> 191)"

definition emit :: "nat \<Rightarrow> error + pystr \<Rightarrow> error + pystr" where
  "emit c r = (case r of Inl e \<Rightarrow> Inl e | Inr s \<Rightarrow> Inr (c # s))"

text \<open>
  What the error handler does with an undecodable run of bytes: \<open>strict\<close> raises,
  \<open>ignore\<close> drops the bytes and goes on, \<open>replace\<close> puts U+FFFD in their place.
\<close>

definition bad :: "errors \<Rightarrow> error + pystr \<Rightarrow> error + pystr" where
  "bad h r = (case h of Strict \<Rightarrow> Inl UnicodeDecodeError | Ignore \<Rightarrow> r | Replace \<Rightarrow> emit 65533 r)"

text \<open>Range of the second byte of a multi-byte sequence, given the lead byte.\<close>

definition second_ok :: "nat \<Rightarrow> nat \<Rightarrow> bool" where
  "second_ok b0 b1 =
     (if b0 = 224 then 160 \<le> b1 \<and> b1 \<le> 191
      else if b0 = 237 then 128 \<le> b1 \<and> b1 \<le> 159
      else if b0 = 240 then 144 \<le> b1 \<and> b1 \<le> 191
      else if b0 = 244 then 128 \<le> b1 \<and> b1 \<le> 143
      else is_cont b1)"

text \<open>
  The UTF-8 decoder. An invalid lead byte is an error of one byte; a sequence cut short
  is an error covering the bytes that were still a valid prefix, and decoding resumes at
  the byte that broke it.
\<close>

fun utf8_decode :: "errors \<Rightarrow> nat list \<Rightarrow> error + pystr" where
  "utf8_decode h [] = Inr []"
| "utf8_decode h (b0 # bs) =
     (if b0 < 128 then emit b0 (utf8_decode h bs)
      else if 194 \<le> b0 \<and> b0 \<le> 223 then
        (case bs of
           [] \<Rightarrow> bad h (Inr [])
         | b1 # bs1 \<Rightarrow>
             if is_cont b1 then emit ((b0 - 192) * 64 + (b1 - 128)) (utf8_decode h bs1)
             else bad h (utf8_decode h bs))
      else if 224 \<le> b0 \<and> b0 \<le> 239 then
        (case bs of
           [] \<Rightarrow> bad h (Inr [])
         | b1 # bs1 \<Rightarrow>
             if second_ok b0 b1 then
               (case bs1 of
                  [] \<Rightarrow> bad h (Inr [])
                | b2 # bs2 \<Rightarrow>
                    if is_cont b2 then
                      emit ((b0 - 224) * 4096 + (b1 - 128) * 64 + (b2 - 128)) (utf8_decode h bs2)
                    else bad h (utf8_decode h bs1))
             else bad h (utf8_decode h bs))
      else if 240 \<le> b0 \<and> b0 \<le> 244 then
        (case bs of
           [] \<Rightarrow> bad h (Inr [])
         | b1 # bs1 \<Rightarrow>
             if second_ok b0 b1 then
               (case bs1 of
                  [] \<Rightarrow> bad h (Inr [])
                | b2 # bs2 \<Rightarrow>
                    if is_cont b2 then
                      (case bs2 of
                         [] \<Rightarrow> bad h (Inr [])
                       | b3 # bs3 \<Rightarrow>
                           if is_cont b3 then
                             emit ((b0 - 240) * 262144 + (b1 - 128) * 4096 + (b2 - 128) * 64 + (b3 - 128))
                               (utf8_decode h bs3)
                           else bad h (utf8_decode h bs2))
                    else bad h (utf8_decode h bs1))
             else bad h (utf8_decode h bs))
      else bad h (utf8_decode h bs))"

text \<open>The UTF-8 encoder; a surrogate code point cannot be encoded.\<close>

definition utf8_encode_char :: "nat \<Rightarrow> nat list option" where
  "utf8_encode_char c =
     (if c < 128 then Some [c]
      else if c < 2048 then Some [192 + c div 64, 128 + c mod 64]
      else if c < 65536 then
        (if 55296 \<le> c \<and> c \<le> 57343 then None
         else Some [224 + c div 4096, 128 + c div 64 mod 64, 128 + c mod 64])
      else if c < 1114112 then
        Some [240 + c div 262144, 128 + c div 4096 mod 64, 128 + c div 64 mod 64, 128 + c mod 64]
      else None)"

fun utf8_encode :: "pystr \<Rightarrow> nat list option" where
  "utf8_encode [] = Some []"
| "utf8_encode (c # cs) =
     (case utf8_encode_char c of
        None \<Rightarrow> None
      | Some bs \<Rightarrow> (case utf8_encode cs of None \<Rightarrow> None | Some rest \<Rightarrow> Some (bs @ rest)))"

text \<open>
  Text mode reads with universal newlines (\<open>newline=None\<close>): \<open>\r\n\<close> and a lone
  \<open>\r\<close> both arrive as \<open>\n\<close>.
\<close>

fun universal_newlines :: "pystr \<Rightarrow> pystr" where
  "universal_newlines [] = []"
| "universal_newlines (c # cs) =
     (if c = 13 then
        (case cs of
           [] \<Rightarrow> [10]
         | d # ds \<Rightarrow> if d = 10 then 10 # universal_newlines ds else 10 # universal_newlines cs)
      else c # universal_newlines cs)"

text \<open>\<open>f.read()\<close> on a file opened with \<open>open(p, 'r', encoding='utf-8', errors=h)\<close>.\<close>

definition read_text :: "errors \<Rightarrow> byte list \<Rightarrow> error + pystr" where
  "read_text h bs =
     (case utf8_decode h (map unat bs) of
        Inl e \<Rightarrow> Inl e
      | Inr s \<Rightarrow> Inr (universal_newlines s))"

text \<open>
  \<open>str.splitlines()\<close>: the line boundaries are LF, CR, CR LF, VT, FF, FS, GS, RS, NEL,
  LS and PS; the boundary is not part of the line, and text that ends in a boundary has
  no empty last line.
\<close>

definition is_linebreak :: "nat \<Rightarrow> bool" where
  "is_linebreak c = (c \<in> {10, 11, 12, 13, 28, 29, 30, 133, 8232, 8233})"

fun splitlines_from :: "pystr \<Rightarrow> pystr \<Rightarrow> pystr list" where
  "splitlines_from cur [] = (if cur = [] then [] else [cur])"
| "splitlines_from cur (c # cs) =
     (if c = 13 then
        (case cs of
           [] \<Rightarrow> [cur]
         | d # ds \<Rightarrow> if d = 10 then cur # splitlines_from [] ds else cur # splitlines_from [] cs)
      else if is_linebreak c then cur # splitlines_from [] cs
      else splitlines_from (cur @ [c]) cs)"

definition splitlines :: "pystr \<Rightarrow> pystr list" where
  "splitlines s = splitlines_from [] s"


text \<open>\<open>sep.join(xs)\<close>.\<close>

fun str_join :: "pystr \<Rightarrow> pystr list \<Rightarrow> pystr" where
  "str_join sep [] = []"
| "str_join sep [x] = x"
| "str_join sep (x # y # ys) = x @ sep @ str_join sep (y # ys)"

section \<open>Paths as text\<close>

text \<open>
  Where a path is printed, it is the string the source builds. \<open>os.path.join\<close> on POSIX:
  an absolute second part replaces the first, otherwise the parts are put together with
  one separator unless the first already ends in one.
\<close>

definition os_path_join :: "pystr \<Rightarrow> pystr \<Rightarrow> pystr" where
  "os_path_join a b =
     (if b \<noteq> [] \<and> hd b = 47 then b
      else if a = [] \<or> last a = 47 then a @ b
      else a @ [47] @ b)"

text \<open>\<open>s.split('/')\<close>.\<close>

fun split_sep :: "pystr \<Rightarrow> pystr list" where
  "split_sep [] = [[]]"
| "split_sep (c # cs) =
     (if c = 47 then [] # split_sep cs
      else (case split_sep cs of [] \<Rightarrow> [[c]] | x # xs \<Rightarrow> (c # x) # xs))"

text \<open>
  \<open>Path(p).name\<close>: the last component, where empty components and \<open>.\<close> do not count.
\<close>

definition path_name :: "pystr \<Rightarrow> pystr" where
  "path_name p =
     (case filter (\<lambda>x. x \<noteq> [] \<and> x \<noteq> [46]) (split_sep p) of
        [] \<Rightarrow> []
      | x # xs \<Rightarrow> last (x # xs))"

text \<open>\<open>s.rfind(c)\<close>, with \<open>None\<close> for -1.\<close>

fun rfind :: "nat \<Rightarrow> pystr \<Rightarrow> nat option" where
  "rfind c [] = None"
| "rfind c (x # xs) =
     (case rfind c xs of
        Some i \<Rightarrow> Some (Suc i)
      | None \<Rightarrow> if x = c then Some 0 else None)"

text \<open>
  \<open>Path(p).suffix\<close>: from the last dot of the name on, when that dot is neither the
  first nor the last character of the name.
\<close>

definition name_suffix :: "pystr \<Rightarrow> pystr" where
  "name_suffix name =
     (case rfind 46 name of
        None \<Rightarrow> []
      | Some i \<Rightarrow> if 0 < i \<and> Suc i < length name then drop i name else [])"

definition path_suffix :: "pystr \<Rightarrow> pystr" where
  "path_suffix p = name_suffix (path_name p)"

section \<open>The file system\<close>

text \<open>
  A directory is the list of its entries. The order of the list is the order in which
  \<open>os.listdir\<close> returns the names; the file system chooses that order, and the functions
  below put a new entry at the end only to have a definite list. A file is its bytes.
  Where a path is used to reach a file or a directory, it is the list of its components
  from the root of the file system, so \<open>os.path.dirname\<close> of a path with a last
  component is the path without it.
\<close>

datatype fsnode = File "byte list" | Dir "(pystr \<times> fsnode) list"

fun lookup :: "fsnode \<Rightarrow> path \<Rightarrow> fsnode option" where
  "lookup n [] = Some n"
| "lookup (File bs) (c # cs) = None"
| "lookup (Dir es) (c # cs) = (case map_of es c of None \<Rightarrow> None | Some n \<Rightarrow> lookup n cs)"

definition os_path_exists :: "fsnode \<Rightarrow> path \<Rightarrow> bool" where
  "os_path_exists d p = (lookup d p \<noteq> None)"

text \<open>The chain of new directories \<open>c1/c2/.../cn\<close> below a directory that \<open>mkdir\<close> made.\<close>

fun fresh_dirs :: "path \<Rightarrow> fsnode" where
  "fresh_dirs [] = Dir []"
| "fresh_dirs (c # cs) = Dir [(c, fresh_dirs cs)]"

text \<open>
  \<open>os.makedirs(p)\<close>: makes every missing directory on the way and \<open>p\<close> itself. It
  fails when \<open>p\<close> exists, and when a file is in the way; in both cases before anything
  is made.
\<close>

fun os_makedirs :: "path \<Rightarrow> fsnode \<Rightarrow> error + fsnode" where
  "os_makedirs [] n = Inl FileExistsError"
| "os_makedirs (c # cs) (File bs) = Inl NotADirectoryError"
| "os_makedirs (c # cs) (Dir es) =
     (case map_of es c of
        None \<Rightarrow> Inr (Dir (AList.update c (fresh_dirs cs) es))
      | Some n \<Rightarrow>
          (case os_makedirs cs n of
             Inl e \<Rightarrow> Inl e
           | Inr n' \<Rightarrow> Inr (Dir (AList.update c n' es))))"

text \<open>
  The file at \<open>p\<close> gets the bytes \<open>bs\<close>, as \<open>open(p, 'w')\<close> and the writes to it do: the
  file is made if its directory exists, and replaced if it is a file already.
\<close>

fun fs_write :: "path \<Rightarrow> byte list \<Rightarrow> fsnode \<Rightarrow> error + fsnode" where
  "fs_write [] bs (File old) = Inr (File bs)"
| "fs_write [] bs (Dir es) = Inl IsADirectoryError"
| "fs_write (c # cs) bs (File old) = Inl NotADirectoryError"
| "fs_write (c # cs) bs (Dir es) =
     (case map_of es c of
        None \<Rightarrow> if cs = [] then Inr (Dir (AList.update c (File bs) es)) else Inl FileNotFoundError
      | Some n \<Rightarrow>
          (case fs_write cs bs n of
             Inl e \<Rightarrow> Inl e
           | Inr n' \<Rightarrow> Inr (Dir (AList.update c n' es))))"

text \<open>The bytes that \<open>open(p, 'r')\<close> reads.\<close>

definition fs_read :: "path \<Rightarrow> fsnode \<Rightarrow> error + byte list" where
  "fs_read p d =
     (case lookup d p of
        None \<Rightarrow> Inl FileNotFoundError
      | Some (Dir es) \<Rightarrow> Inl IsADirectoryError
      | Some (File bs) \<Rightarrow> Inr bs)"

section \<open>Exclusions\<close>

text \<open>
  \<open>load_exclusions\<close> opens the file without an encoding argument; the locale's encoding
  is taken to be UTF-8.
\<close>

definition load_exclusions :: "fsnode \<Rightarrow> path \<Rightarrow> error + pystr list" where
  "load_exclusions d file_path =
     (if \<not> os_path_exists d file_path then Inr []
      else
        (case fs_read file_path d of
           Inl e \<Rightarrow> Inl e
         | Inr bs \<Rightarrow>
             (case read_text Strict bs of
                Inl e \<Rightarrow> Inl e
              | Inr s \<Rightarrow> Inr (splitlines s))))"

text \<open>
  \<open>fnmatch.fnmatch\<close> is the standard library's glob matcher; the functions below take
  it as their first argument.
\<close>

type_synonym matcher = "pystr \<Rightarrow> pystr \<Rightarrow> bool"

definition should_exclude :: "matcher \<Rightarrow> pystr \<Rightarrow> pystr list \<Rightarrow> bool" where
  "should_exclude fnmatch item exclusions = list_ex (\<lambda>pattern. fnmatch item pattern) exclusions"

section \<open>Capture\<close>

text \<open>
  The structure is what \<open>json.load\<close> returns: a dictionary is the list of its items in
  insertion order, and \<open>d[k] = v\<close> is \<open>AList.update k v d\<close>. JSON numbers are
  represented by the integers.
\<close>

datatype json =
    JNull | JBool bool | JNum int | JStr pystr | JList "json list"
  | JDict "(pystr \<times> json) list"

text \<open>
  The loop of \<open>directory_to_dict\<close> over the entries of the directory at \<open>path\<close>, with
  the dictionary \<open>result\<close> built so far. The directory is given by its entries:
  \<open>os.listdir(path)\<close> is their names, \<open>os.path.isdir(item_path)\<close> holds of an entry that is a
  \<open>Dir\<close>, and the recursive call on \<open>item_path\<close> gets the entries of that directory.
\<close>

fun directory_to_dict_loop ::
  "matcher \<Rightarrow> pystr list \<Rightarrow> (pystr \<times> fsnode) list \<Rightarrow> (pystr \<times> json) list
     \<Rightarrow> error + (pystr \<times> json) list" where
  "directory_to_dict_loop fnmatch exclusions [] result = Inr result"
| "directory_to_dict_loop fnmatch exclusions ((item, node) # rest) result =
     (if should_exclude fnmatch item exclusions
      then directory_to_dict_loop fnmatch exclusions rest result
      else
        (case node of
           Dir sub \<Rightarrow>
             (case directory_to_dict_loop fnmatch exclusions sub [] of
                Inl e \<Rightarrow> Inl e
              | Inr d \<Rightarrow>
                  directory_to_dict_loop fnmatch exclusions rest (AList.update item (JDict d) result))
         | File bs \<Rightarrow>
             (case read_text Ignore bs of
                Inl e \<Rightarrow> Inl e
              | Inr s \<Rightarrow>
                  directory_to_dict_loop fnmatch exclusions rest (AList.update item (JStr s) result))))"

definition directory_to_dict ::
  "matcher \<Rightarrow> (pystr \<times> fsnode) list \<Rightarrow> pystr list \<Rightarrow> error + (pystr \<times> json) list" where
  "directory_to_dict fnmatch entries exclusions = directory_to_dict_loop fnmatch exclusions entries []"

text \<open>Capture of the directory at a path of the file system; \<open>os.listdir\<close> can fail.\<close>

definition capture :: "matcher \<Rightarrow> fsnode \<Rightarrow> path \<Rightarrow> pystr list \<Rightarrow> error + (pystr \<times> json) list" where
  "capture fnmatch d p exclusions =
     (case lookup d p of
        None \<Rightarrow> Inl FileNotFoundError
      | Some (File bs) \<Rightarrow> Inl NotADirectoryError
      | Some (Dir es) \<Rightarrow> directory_to_dict fnmatch es exclusions)"

section \<open>The flat document\<close>

definition section_text :: "pystr \<Rightarrow> pystr \<Rightarrow> pystr \<Rightarrow> pystr" where
  "section_text item_path tag file_content =
     lit ''### '' @ item_path @ [10] @ [96, 96, 96] @ tag @ [10] @ file_content @ [10]
       @ [96, 96, 96] @ [10]"

text \<open>
  The loop of \<open>directory_to_markdown\<close>, with the list \<open>markdown_content\<close> built so far;
  the recursive call returns the joined list of the subdirectory.
\<close>

fun directory_to_markdown_loop ::
  "matcher \<Rightarrow> pystr list \<Rightarrow> pystr \<Rightarrow> (pystr \<times> fsnode) list \<Rightarrow> pystr list
     \<Rightarrow> error + pystr list" where
  "directory_to_markdown_loop fnmatch exclusions path [] markdown_content = Inr markdown_content"
| "directory_to_markdown_loop fnmatch exclusions path ((item, node) # rest) markdown_content =
     (if should_exclude fnmatch item exclusions
      then directory_to_markdown_loop fnmatch exclusions path rest markdown_content
      else
        (let item_path = os_path_join path item in
         case node of
           Dir sub \<Rightarrow>
             (case directory_to_markdown_loop fnmatch exclusions item_path sub [] of
                Inl e \<Rightarrow> Inl e
              | Inr inner \<Rightarrow>
                  directory_to_markdown_loop fnmatch exclusions path rest
                    (markdown_content @ [str_join [10] inner]))
         | File bs \<Rightarrow>
             (case read_text Ignore bs of
                Inl e \<Rightarrow> Inl e
              | Inr file_content \<Rightarrow>
                  directory_to_markdown_loop fnmatch exclusions path rest
                    (markdown_content @
                      [section_text item_path
                         (if path_suffix item_path = lit ''.py'' then lit ''python'' else [])
                         file_content]))))"

definition directory_to_markdown ::
  "matcher \<Rightarrow> pystr \<Rightarrow> (pystr \<times> fsnode) list \<Rightarrow> pystr list \<Rightarrow> error + pystr" where
  "directory_to_markdown fnmatch path entries exclusions =
     (case directory_to_markdown_loop fnmatch exclusions path entries [] of
        Inl e \<Rightarrow> Inl e
      | Inr markdown_content \<Rightarrow> Inr (str_join [10] markdown_content))"

section \<open>Reconcile\<close>

text \<open>
  The state that \<open>update_files_from_json\<close> changes: the file system and the log. A
  message of \<open>logging.info\<close> is kept as an event with the values the message prints.
\<close>

datatype event =
    DirCreated path
  | FileUpdated path nat nat
  | FileCreated path

record world =
  disk :: fsnode
  logged :: "event list"

definition logging_info :: "event \<Rightarrow> world \<Rightarrow> world" where
  "logging_info e w = w\<lparr>logged := logged w @ [e]\<rparr>"

text \<open>
  \<open>with open(file_path, 'w', encoding='utf-8') as f: f.write(content)\<close>. Opening makes
  the file or empties it. \<open>f.write\<close> raises \<open>TypeError\<close> when \<open>content\<close> is not a string
  and \<open>UnicodeEncodeError\<close> when it cannot be encoded; the file stays empty then.
\<close>

definition write_text :: "path \<Rightarrow> json \<Rightarrow> fsnode \<Rightarrow> error option \<times> fsnode" where
  "write_text file_path content d =
     (case fs_write file_path [] d of
        Inl e \<Rightarrow> (Some e, d)
      | Inr d1 \<Rightarrow>
          (case content of
             JStr s \<Rightarrow>
               (case utf8_encode s of
                  None \<Rightarrow> (Some UnicodeEncodeError, d1)
                | Some bs \<Rightarrow>
                    (case fs_write file_path (map of_nat bs) d1 of
                       Inl e \<Rightarrow> (Some e, d1)
                     | Inr d2 \<Rightarrow> (None, d2)))
           | _ \<Rightarrow> (Some TypeError, d1)))"

text \<open>\<open>len(content.splitlines())\<close>; only reached after \<open>content\<close> was written.\<close>

definition content_lines :: "json \<Rightarrow> nat" where
  "content_lines content = (case content of JStr s \<Rightarrow> length (splitlines s) | _ \<Rightarrow> 0)"

text \<open>
  The result is the exception that ended the call, if any, and the state at that
  moment.
\<close>

definition update_or_create_file :: "path \<Rightarrow> json \<Rightarrow> world \<Rightarrow> error option \<times> world" where
  "update_or_create_file file_path content w =
     (let dir_name = butlast file_path in
      case (if \<not> os_path_exists (disk w) dir_name
            then (case os_makedirs dir_name (disk w) of
                    Inl e \<Rightarrow> Inl e
                  | Inr d \<Rightarrow> Inr (logging_info (DirCreated dir_name) (w\<lparr>disk := d\<rparr>)))
            else Inr w) of
        Inl e \<Rightarrow> (Some e, w)
      | Inr w1 \<Rightarrow>
          if os_path_exists (disk w1) file_path then
            (case fs_read file_path (disk w1) of
               Inl e \<Rightarrow> (Some e, w1)
             | Inr bs \<Rightarrow>
                 (case read_text Strict bs of
                    Inl e \<Rightarrow> (Some e, w1)
                  | Inr old_content \<Rightarrow>
                      if JStr old_content \<noteq> content then
                        (case write_text file_path content (disk w1) of
                           (Some e, d) \<Rightarrow> (Some e, w1\<lparr>disk := d\<rparr>)
                         | (None, d) \<Rightarrow>
                             (None,
                              logging_info
                                (FileUpdated file_path (length (splitlines old_content))
                                   (content_lines content))
                                (w1\<lparr>disk := d\<rparr>)))
                      else (None, w1)))
          else
            (case write_text file_path content (disk w1) of
               (Some e, d) \<Rightarrow> (Some e, w1\<lparr>disk := d\<rparr>)
             | (None, d) \<Rightarrow> (None, logging_info (FileCreated file_path) (w1\<lparr>disk := d\<rparr>))))"

text \<open>
  \<open>os.path.join(current_path, name)\<close> for a path kept as its components. The key
  \<open>name\<close> comes from the document unchecked: a key that starts with a separator is an
  absolute path and replaces \<open>current_path\<close>, a key with separators adds several
  components, an empty component or \<open>.\<close> adds none and \<open>..\<close> leads to the parent. For
  an entry name (one component) the result is \<open>current_path @ [name]\<close>.
\<close>

fun walk_components :: "path \<Rightarrow> pystr list \<Rightarrow> path" where
  "walk_components p [] = p"
| "walk_components p (c # cs) =
     (if c = [] \<or> c = [46] then walk_components p cs
      else if c = [46, 46] then walk_components (butlast p) cs
      else walk_components (p @ [c]) cs)"

definition os_path_join_components :: "path \<Rightarrow> pystr \<Rightarrow> path" where
  "os_path_join_components current_path name =
     walk_components (if name \<noteq> [] \<and> hd name = 47 then [] else current_path) (split_sep name)"

text \<open>The loop of \<open>recurse_structure\<close> over \<open>structure.items()\<close>.\<close>

fun recurse_structure_loop :: "(pystr \<times> json) list \<Rightarrow> path \<Rightarrow> world \<Rightarrow> error option \<times> world" where
  "recurse_structure_loop [] current_path w = (None, w)"
| "recurse_structure_loop ((name, content) # rest) current_path w =
     (let item_path = os_path_join_components current_path name in
      case (case content of
              JDict d \<Rightarrow> recurse_structure_loop d item_path w
            | _ \<Rightarrow> update_or_create_file item_path content w) of
        (Some e, w') \<Rightarrow> (Some e, w')
      | (None, w') \<Rightarrow> recurse_structure_loop rest current_path w')"

text \<open>
  \<open>recurse_structure(structure, current_path)\<close>: calling \<open>.items()\<close> on a value that is
  not a dictionary raises \<open>AttributeError\<close>. Only the first call can get such a value;
  the recursive call is made for dictionaries.
\<close>

definition recurse_structure :: "json \<Rightarrow> path \<Rightarrow> world \<Rightarrow> error option \<times> world" where
  "recurse_structure structure current_path w =
     (case structure of
        JDict d \<Rightarrow> recurse_structure_loop d current_path w
      | _ \<Rightarrow> (Some AttributeError, w))"

text \<open>
  \<open>update_files_from_json(directory_path, json_path)\<close>. The file at \<open>json_path\<close> is read
  as UTF-8 text and parsed by \<open>json.load\<close>, then the walk starts. The parser of the
  standard library is the first argument: it returns the parsed value or the exception
  it raises (\<open>JSONDecodeError\<close>). Nothing has been changed when reading or parsing fails.
\<close>

definition update_files_from_json ::
  "(pystr \<Rightarrow> error + json) \<Rightarrow> path \<Rightarrow> path \<Rightarrow> world \<Rightarrow> error option \<times> world" where
  "update_files_from_json json_loads directory_path json_path w =
     (case fs_read json_path (disk w) of
        Inl e \<Rightarrow> (Some e, w)
      | Inr bs \<Rightarrow>
          (case read_text Strict bs of
             Inl e \<Rightarrow> (Some e, w)
           | Inr text \<Rightarrow>
               (case json_loads text of
                  Inl e \<Rightarrow> (Some e, w)
                | Inr new_structure \<Rightarrow> recurse_structure new_structure directory_path w)))"

section \<open>Saving the structure\<close>

text \<open>
  \<open>save_structure_to_json(structure, output_path)\<close>. The serializer of the standard
  library is the first argument: \<open>json_dumps structure\<close> is the text that
  \<open>json.dump(structure, f, ensure_ascii=False, indent=4)\<close> writes. Opening the file
  makes or empties it; the text is written in UTF-8, and with \<open>ensure_ascii=False\<close> a
  code point that UTF-8 cannot encode reaches the file object, which raises
  \<open>UnicodeEncodeError\<close>. The result is the exception or the file system after the call.
\<close>

definition save_structure_to_json ::
  "(json \<Rightarrow> pystr) \<Rightarrow> json \<Rightarrow> path \<Rightarrow> fsnode \<Rightarrow> error + fsnode" where
  "save_structure_to_json json_dumps structure output_path d =
     (case fs_write output_path [] d of
        Inl e \<Rightarrow> Inl e
      | Inr d1 \<Rightarrow>
          (case utf8_encode (json_dumps structure) of
             None \<Rightarrow> Inl UnicodeEncodeError
           | Some bs \<Rightarrow> fs_write output_path (map of_nat bs) d1))"

section \<open>Notions used in the properties\<close>

text \<open>A code point that UTF-8 can encode: below 0x110000 and not a surrogate.\<close>

definition scalar :: "nat \<Rightarrow> bool" where
  "scalar c = (c < 1114112 \<and> \<not> (55296 \<le> c \<and> c \<le> 57343))"

text \<open>One step of the decoder from \<open>bs\<close> goes on at \<open>bs'\<close>, for every error handler alike: the
  bytes before \<open>bs'\<close> either encode one code point or are one error.\<close>

definition step_ok :: "nat list \<Rightarrow> nat list \<Rightarrow> bool" where
  "step_ok bs bs' =
     (\<exists>pre. pre \<noteq> [] \<and> bs = pre @ bs' \<and>
        ((\<exists>c. scalar c \<and> (\<forall>h rest. utf8_decode h (pre @ rest) = emit c (utf8_decode h rest)))
          \<or> (\<forall>h. utf8_decode h bs = bad h (utf8_decode h bs'))))"

text \<open>
  The shape that reconcile expects of a document: a dictionary whose values are strings
  or dictionaries of that shape. The exceptions that a document of another shape
  causes stand for the specification's \<open>MalformedDocumentError\<close>: \<open>JSONDecodeError\<close>
  of the parser, \<open>AttributeError\<close> of \<open>.items()\<close> and \<open>TypeError\<close> of \<open>f.write\<close>.
\<close>

fun well_shaped_items :: "(pystr \<times> json) list \<Rightarrow> bool" where
  "well_shaped_items [] = True"
| "well_shaped_items ((name, content) # rest) =
     ((case content of
         JStr s \<Rightarrow> True
       | JDict d \<Rightarrow> well_shaped_items d
       | _ \<Rightarrow> False) \<and> well_shaped_items rest)"

definition well_shaped :: "json \<Rightarrow> bool" where
  "well_shaped doc = (case doc of JDict d \<Rightarrow> well_shaped_items d | _ \<Rightarrow> False)"

definition malformed_document_error :: "error \<Rightarrow> bool" where
  "malformed_document_error e = (e = TypeError \<or> e = AttributeError \<or> e = JSONDecodeError)"

text \<open>\<open>os.path.isdir\<close> of a node.\<close>

definition isdir :: "fsnode \<Rightarrow> bool" where
  "isdir n = (case n of Dir es \<Rightarrow> True | File bs \<Rightarrow> False)"

text \<open>
  The paths of a document below \<open>current_path\<close>: of its leaves (the values that are not
  dictionaries), of all its nodes, and of its dictionaries together with their items.
\<close>

fun leaf_paths :: "(pystr \<times> json) list \<Rightarrow> path \<Rightarrow> path list" where
  "leaf_paths [] current_path = []"
| "leaf_paths ((name, content) # rest) current_path =
     (case content of
        JDict d \<Rightarrow> leaf_paths d (current_path @ [name])
      | _ \<Rightarrow> [current_path @ [name]]) @ leaf_paths rest current_path"




text \<open>
  Two relations between the file system before and after: every path that leads to a
  node still leads to a node of the same kind; and every path that is not on the way to
  one of the paths in \<open>S\<close> leads to the same node, or to nothing, as before.
\<close>

definition keeps :: "fsnode \<Rightarrow> fsnode \<Rightarrow> bool" where
  "keeps d d' = (\<forall>q n. lookup d q = Some n \<longrightarrow> (\<exists>n'. lookup d' q = Some n' \<and> isdir n' = isdir n))"

definition same_outside :: "path set \<Rightarrow> fsnode \<Rightarrow> fsnode \<Rightarrow> bool" where
  "same_outside S d d' = (\<forall>q. (\<forall>p\<in>S. \<not> prefix q p) \<longrightarrow> lookup d' q = lookup d q)"

text \<open>
  A name that a directory entry can have on POSIX, and a tree in which every entry has
  such a name.
\<close>

definition valid_name :: "pystr \<Rightarrow> bool" where
  "valid_name item = (item \<noteq> [] \<and> item \<noteq> [46] \<and> item \<noteq> [46, 46] \<and> 47 \<notin> set item \<and> 0 \<notin> set item)"

fun valid_names :: "(pystr \<times> fsnode) list \<Rightarrow> bool" where
  "valid_names [] = True"
| "valid_names ((item, node) # rest) =
     (valid_name item \<and> (case node of File bs \<Rightarrow> True | Dir sub \<Rightarrow> valid_names sub) \<and> valid_names rest)"

text \<open>The text that capture reads from a file.\<close>

definition file_text :: "byte list \<Rightarrow> pystr" where
  "file_text bs = (case read_text Ignore bs of Inl e \<Rightarrow> [] | Inr s \<Rightarrow> s)"

text \<open>
  The flat document in the specification's words: one section for every file that is
  not excluded, depth first in listing order, headed by the file's full path, with the
  tag \<open>python\<close> exactly when the extension of the file's name is \<open>.py\<close>. Directories
  give nothing of their own.
\<close>

fun flat_sections :: "matcher \<Rightarrow> pystr list \<Rightarrow> pystr \<Rightarrow> (pystr \<times> fsnode) list \<Rightarrow> pystr list" where
  "flat_sections fnmatch exclusions path [] = []"
| "flat_sections fnmatch exclusions path ((item, node) # rest) =
     (if should_exclude fnmatch item exclusions then []
      else
        (case node of
           File bs \<Rightarrow>
             [section_text (os_path_join path item)
                (if name_suffix item = lit ''.py'' then lit ''python'' else []) (file_text bs)]
         | Dir sub \<Rightarrow> flat_sections fnmatch exclusions (os_path_join path item) sub))
     @ flat_sections fnmatch exclusions path rest"

text \<open>
  A directory has a file when a file that is not excluded is in it or below it; the
  second predicate says that of every directory of the tree that is not excluded.
\<close>

fun has_file :: "matcher \<Rightarrow> pystr list \<Rightarrow> (pystr \<times> fsnode) list \<Rightarrow> bool" where
  "has_file fnmatch exclusions [] = False"
| "has_file fnmatch exclusions ((item, node) # rest) =
     ((\<not> should_exclude fnmatch item exclusions \<and>
       (case node of File bs \<Rightarrow> True | Dir sub \<Rightarrow> has_file fnmatch exclusions sub))
      \<or> has_file fnmatch exclusions rest)"

fun dirs_have_files :: "matcher \<Rightarrow> pystr list \<Rightarrow> (pystr \<times> fsnode) list \<Rightarrow> bool" where
  "dirs_have_files fnmatch exclusions [] = True"
| "dirs_have_files fnmatch exclusions ((item, node) # rest) =
     ((should_exclude fnmatch item exclusions \<or>
       (case node of
          File bs \<Rightarrow> True
        | Dir sub \<Rightarrow> has_file fnmatch exclusions sub \<and> dirs_have_files fnmatch exclusions sub))
      \<and> dirs_have_files fnmatch exclusions rest)"

text \<open>The list \<open>markdown_content\<close> that the loop of \<open>directory_to_markdown\<close> builds.\<close>

fun markdown_elements :: "matcher \<Rightarrow> pystr list \<Rightarrow> pystr \<Rightarrow> (pystr \<times> fsnode) list \<Rightarrow> pystr list" where
  "markdown_elements fnmatch exclusions path [] = []"
| "markdown_elements fnmatch exclusions path ((item, node) # rest) =
     (if should_exclude fnmatch item exclusions then []
      else
        (case node of
           File bs \<Rightarrow>
             [section_text (os_path_join path item)
                (if path_suffix (os_path_join path item) = lit ''.py'' then lit ''python'' else [])
                (file_text bs)]
         | Dir sub \<Rightarrow> [str_join [10] (markdown_elements fnmatch exclusions (os_path_join path item) sub)]))
     @ markdown_elements fnmatch exclusions path rest"

text \<open>
  The entries of the directory at a path, where a directory that does not exist yet
  counts as empty and a file in the way gives \<open>None\<close>; and the file system in which
  the directory at the path has the given entries, made with its parents if it did not
  exist.
\<close>

fun entries_at :: "fsnode \<Rightarrow> path \<Rightarrow> (pystr \<times> fsnode) list option" where
  "entries_at (File bs) p = None"
| "entries_at (Dir es) [] = Some es"
| "entries_at (Dir es) (c # cs) = entries_at (case map_of es c of None \<Rightarrow> Dir [] | Some n \<Rightarrow> n) cs"

fun put_dir :: "path \<Rightarrow> (pystr \<times> fsnode) list \<Rightarrow> fsnode \<Rightarrow> fsnode" where
  "put_dir [] new n = Dir new"
| "put_dir (c # cs) new (File bs) = File bs"
| "put_dir (c # cs) new (Dir es) =
     Dir (AList.update c (put_dir cs new (case map_of es c of None \<Rightarrow> Dir [] | Some n \<Rightarrow> n)) es)"

text \<open>
  The tree that reconcile makes of a document in an empty place, and the documents for
  which it does so without loss: the keys of a dictionary differ, a content can be
  encoded and has no carriage return, and no dictionary is empty.
\<close>

definition encode_bytes :: "pystr \<Rightarrow> byte list" where
  "encode_bytes s = (case utf8_encode s of None \<Rightarrow> [] | Some bs \<Rightarrow> map of_nat bs)"

fun materialize :: "(pystr \<times> json) list \<Rightarrow> (pystr \<times> fsnode) list" where
  "materialize [] = []"
| "materialize ((name, content) # rest) =
     (name, case content of
              JDict d \<Rightarrow> Dir (materialize d)
            | JStr s \<Rightarrow> File (encode_bytes s)
            | _ \<Rightarrow> File []) # materialize rest"

fun good_items :: "(pystr \<times> json) list \<Rightarrow> bool" where
  "good_items [] = True"
| "good_items ((name, content) # rest) =
     (name \<notin> fst ` set rest \<and>
      (case content of
         JStr s \<Rightarrow> utf8_encode s \<noteq> None \<and> 13 \<notin> set s
       | JDict d \<Rightarrow> d \<noteq> [] \<and> good_items d
       | _ \<Rightarrow> False) \<and>
      good_items rest)"

text \<open>
  Two properties of a tree: the names in each directory differ, as they do on disk; and
  no directory in it is empty. \<open>to_doc\<close> is the document of a tree when nothing is
  excluded.
\<close>

fun unique_names :: "(pystr \<times> fsnode) list \<Rightarrow> bool" where
  "unique_names [] = True"
| "unique_names ((item, node) # rest) =
     (item \<notin> fst ` set rest \<and>
      (case node of File bs \<Rightarrow> True | Dir sub \<Rightarrow> unique_names sub) \<and>
      unique_names rest)"

fun no_empty_dirs :: "(pystr \<times> fsnode) list \<Rightarrow> bool" where
  "no_empty_dirs [] = True"
| "no_empty_dirs ((item, node) # rest) =
     ((case node of File bs \<Rightarrow> True | Dir sub \<Rightarrow> sub \<noteq> [] \<and> no_empty_dirs sub) \<and>
      no_empty_dirs rest)"

fun to_doc :: "(pystr \<times> fsnode) list \<Rightarrow> (pystr \<times> json) list" where
  "to_doc [] = []"
| "to_doc ((item, node) # rest) =
     (item, case node of File bs \<Rightarrow> JStr (file_text bs) | Dir sub \<Rightarrow> JDict (to_doc sub)) # to_doc rest"

text \<open>
  A document whose keys differ in each dictionary and whose contents have no carriage
  return; and a file system in which every leaf of a document is a file whose text is
  the content of the leaf.
\<close>

fun plain_items :: "(pystr \<times> json) list \<Rightarrow> bool" where
  "plain_items [] = True"
| "plain_items ((name, content) # rest) =
     (name \<notin> fst ` set rest \<and>
      (case content of
         JStr s \<Rightarrow> 13 \<notin> set s
       | JDict d \<Rightarrow> plain_items d
       | _ \<Rightarrow> False) \<and>
      plain_items rest)"

fun settled :: "(pystr \<times> json) list \<Rightarrow> path \<Rightarrow> fsnode \<Rightarrow> bool" where
  "settled [] current_path d = True"
| "settled ((name, content) # rest) current_path d =
     ((case content of
         JStr s \<Rightarrow>
           (case lookup d (current_path @ [name]) of
              Some (File bs) \<Rightarrow> read_text Strict bs = Inr s
            | _ \<Rightarrow> False)
       | JDict sub \<Rightarrow> settled sub (current_path @ [name]) d
       | _ \<Rightarrow> False) \<and>
      settled rest current_path d)"


text \<open>
  A document whose keys are entry names, at every level below the top: each key is one
  path component. For such a document the walk is \<open>recurse_plain\<close>, in which
  \<open>os.path.join\<close> adds the key as the last component.
\<close>

fun entry_names :: "(pystr \<times> json) list \<Rightarrow> bool" where
  "entry_names [] = True"
| "entry_names ((name, content) # rest) =
     (valid_name name \<and> (case content of JDict d \<Rightarrow> entry_names d | _ \<Rightarrow> True) \<and> entry_names rest)"


fun recurse_plain :: "(pystr \<times> json) list \<Rightarrow> path \<Rightarrow> world \<Rightarrow> error option \<times> world" where
  "recurse_plain [] current_path w = (None, w)"
| "recurse_plain ((name, content) # rest) current_path w =
     (let item_path = current_path @ [name] in
      case (case content of
              JDict d \<Rightarrow> recurse_plain d item_path w
            | _ \<Rightarrow> update_or_create_file item_path content w) of
        (Some e, w') \<Rightarrow> (Some e, w')
      | (None, w') \<Rightarrow> recurse_plain rest current_path w')"

text \<open>
  The value that \<open>update_files_from_json\<close> gets from the file at \<open>json_path\<close>, or the
  exception that reading or parsing raises.
\<close>

definition loaded_document :: "(pystr \<Rightarrow> error + json) \<Rightarrow> path \<Rightarrow> fsnode \<Rightarrow> error + json" where
  "loaded_document json_loads json_path d =
     (case fs_read json_path d of
        Inl e \<Rightarrow> Inl e
      | Inr bs \<Rightarrow>
          (case read_text Strict bs of
             Inl e \<Rightarrow> Inl e
           | Inr text \<Rightarrow> json_loads text))"

text \<open>
  For examples: a parser that knows one text. \<open>parses_only text v\<close> returns \<open>v\<close> on
  \<open>text\<close>, as \<open>json.loads\<close> does when \<open>text\<close> is the JSON text of \<open>v\<close>, and raises on
  every other text.
\<close>

definition parses_only :: "pystr \<Rightarrow> json \<Rightarrow> pystr \<Rightarrow> error + json" where
  "parses_only text v t = (if t = text then Inr v else Inl JSONDecodeError)"

text \<open>
  A value that is neither a string nor a dictionary; the part of a document that the
  walk passes before it reaches the first such value; and the path and the value at
  which it reaches it.
\<close>

definition other_value :: "json \<Rightarrow> bool" where
  "other_value content = (case content of JStr s \<Rightarrow> False | JDict d \<Rightarrow> False | _ \<Rightarrow> True)"

fun before_other :: "(pystr \<times> json) list \<Rightarrow> (pystr \<times> json) list" where
  "before_other [] = []"
| "before_other ((name, content) # rest) =
     (case content of
        JStr s \<Rightarrow> (name, content) # before_other rest
      | JDict d \<Rightarrow>
          if well_shaped_items d then (name, content) # before_other rest
          else [(name, JDict (before_other d))]
      | _ \<Rightarrow> [])"

fun first_other :: "(pystr \<times> json) list \<Rightarrow> path \<Rightarrow> (path \<times> json) option" where
  "first_other [] current_path = None"
| "first_other ((name, content) # rest) current_path =
     (case content of
        JStr s \<Rightarrow> first_other rest current_path
      | JDict d \<Rightarrow>
          (case first_other d (os_path_join_components current_path name) of
             Some x \<Rightarrow> Some x
           | None \<Rightarrow> first_other rest current_path)
      | _ \<Rightarrow> Some (os_path_join_components current_path name, content))"

text \<open>
  The exceptions of the file system and of the codec; and a path at which
  \<open>update_or_create_file\<close> gets as far as writing: a file with valid UTF-8, or nothing
  in a directory that exists.
\<close>

definition io_error :: "error \<Rightarrow> bool" where
  "io_error e = (e \<in> {FileNotFoundError, NotADirectoryError, IsADirectoryError, FileExistsError,
                       UnicodeDecodeError, UnicodeEncodeError})"

definition can_open :: "fsnode \<Rightarrow> path \<Rightarrow> bool" where
  "can_open d p =
     (case lookup d p of
        Some (File bs) \<Rightarrow> (case read_text Strict bs of Inl e \<Rightarrow> False | Inr s \<Rightarrow> True)
      | Some (Dir es) \<Rightarrow> False
      | None \<Rightarrow> p \<noteq> [] \<and> (case lookup d (butlast p) of Some (Dir es) \<Rightarrow> True | _ \<Rightarrow> False))"

section \<open>The codec\<close>


lemma emit_Inr [simp]: "emit c (Inr s) = Inr (c # s)" by (simp add: emit_def)
lemma emit_Inl [simp]: "emit c (Inl e) = Inl e" by (simp add: emit_def)
lemma bad_Ignore [simp]: "bad Ignore r = r" by (simp add: bad_def)
lemma bad_Strict [simp]: "bad Strict r = Inl UnicodeDecodeError" by (simp add: bad_def)
lemma bad_Replace [simp]: "bad Replace r = emit 65533 r" by (simp add: bad_def)

lemma div4096: "(c::nat) div 4096 = c div 64 div 64"
  using div_mult2_eq[of c 64 64] by simp

lemma div262144: "(c::nat) div 262144 = c div 64 div 64 div 64"
  using div_mult2_eq[of c 4096 64] div4096[of c] by simp

lemma decode1: "b0 < 128 \<Longrightarrow> utf8_decode h (b0 # rest) = emit b0 (utf8_decode h rest)"
  by simp

lemma decode2:
  "194 \<le> b0 \<Longrightarrow> b0 \<le> 223 \<Longrightarrow> is_cont b1 \<Longrightarrow>
   utf8_decode h (b0 # b1 # rest) = emit ((b0 - 192) * 64 + (b1 - 128)) (utf8_decode h rest)"
  by simp

lemma decode3:
  "224 \<le> b0 \<Longrightarrow> b0 \<le> 239 \<Longrightarrow> second_ok b0 b1 \<Longrightarrow> is_cont b2 \<Longrightarrow>
   utf8_decode h (b0 # b1 # b2 # rest) =
     emit ((b0 - 224) * 4096 + (b1 - 128) * 64 + (b2 - 128)) (utf8_decode h rest)"
  by simp

lemma decode4:
  "240 \<le> b0 \<Longrightarrow> b0 \<le> 244 \<Longrightarrow> second_ok b0 b1 \<Longrightarrow> is_cont b2 \<Longrightarrow> is_cont b3 \<Longrightarrow>
   utf8_decode h (b0 # b1 # b2 # b3 # rest) =
     emit ((b0 - 240) * 262144 + (b1 - 128) * 4096 + (b2 - 128) * 64 + (b3 - 128)) (utf8_decode h rest)"
  by simp


declare utf8_decode.simps(2) [simp del]

lemma is_cont_mod [simp]: "is_cont (128 + c mod 64)"
  by (simp add: is_cont_def)

lemma decode_encode_char:
  assumes "utf8_encode_char c = Some bs"
  shows "utf8_decode h (bs @ rest) = emit c (utf8_decode h rest)"
proof -
  consider "c < 128" | "128 \<le> c" "c < 2048" | "2048 \<le> c" "c < 65536" "\<not> (55296 \<le> c \<and> c \<le> 57343)"
    | "65536 \<le> c" "c < 1114112"
    using assms by (auto simp: utf8_encode_char_def split: if_splits)
  then show ?thesis
  proof cases
    case 1
    then show ?thesis using assms by (auto simp: utf8_encode_char_def decode1)
  next
    case 2
    then have bs: "bs = [192 + c div 64, 128 + c mod 64]"
      using assms by (auto simp: utf8_encode_char_def)
    have a: "194 \<le> 192 + c div 64" "192 + c div 64 \<le> 223" using 2 by auto
    have c: "(192 + c div 64 - 192) * 64 + (128 + c mod 64 - 128) = c" by simp
    show ?thesis unfolding bs using decode2[OF a, of "128 + c mod 64" h rest] c by simp
  next
    case 3
    then have bs: "bs = [224 + c div 4096, 128 + c div 64 mod 64, 128 + c mod 64]"
      using assms by (auto simp: utf8_encode_char_def)
    have a: "224 \<le> 224 + c div 4096" "224 + c div 4096 \<le> 239" using 3 by auto
    have q: "c div 64 = (c div 64 div 64) * 64 + c div 64 mod 64" by simp
    have p: "c = (c div 64) * 64 + c mod 64" by simp
    have b1: "second_ok (224 + c div 4096) (128 + c div 64 mod 64)"
    proof -
      have "c div 4096 = 0 \<Longrightarrow> 32 \<le> c div 64 mod 64" using 3 q unfolding div4096 by linarith
      moreover have "c div 4096 = 13 \<Longrightarrow> c div 64 mod 64 \<le> 31" using 3 q unfolding div4096 by linarith
      moreover have "c div 64 mod 64 < 64" by simp
      ultimately show ?thesis unfolding second_ok_def is_cont_def using a by auto
    qed
    have c: "(224 + c div 4096 - 224) * 4096 + (128 + c div 64 mod 64 - 128) * 64 + (128 + c mod 64 - 128) = c"
    proof -
      have "c div 64 div 64 * 4096 + c div 64 mod 64 * 64 + c mod 64 = c" using p q by linarith
      then show ?thesis unfolding div4096 by simp
    qed
    show ?thesis unfolding bs using decode3[OF a b1, of "128 + c mod 64" h rest] c by simp
  next
    case 4
    then have bs: "bs = [240 + c div 262144, 128 + c div 4096 mod 64, 128 + c div 64 mod 64, 128 + c mod 64]"
      using assms by (auto simp: utf8_encode_char_def)
    have a: "240 \<le> 240 + c div 262144" "240 + c div 262144 \<le> 244" using 4 by auto
    have q: "c div 64 = (c div 64 div 64) * 64 + c div 64 mod 64" by simp
    have r: "c div 64 div 64 = (c div 64 div 64 div 64) * 64 + c div 64 div 64 mod 64" by simp
    have p: "c = (c div 64) * 64 + c mod 64" by simp
    have b1: "second_ok (240 + c div 262144) (128 + c div 4096 mod 64)"
    proof -
      have "c div 262144 = 0 \<Longrightarrow> 16 \<le> c div 4096 mod 64" using 4 p q r unfolding div4096 div262144 by linarith
      moreover have "c div 262144 = 4 \<Longrightarrow> c div 4096 mod 64 \<le> 15" using 4 p q r unfolding div4096 div262144 by linarith
      moreover have "c div 4096 mod 64 < 64" by simp
      ultimately show ?thesis unfolding second_ok_def is_cont_def using a by auto
    qed
    have c: "(240 + c div 262144 - 240) * 262144 + (128 + c div 4096 mod 64 - 128) * 4096
         + (128 + c div 64 mod 64 - 128) * 64 + (128 + c mod 64 - 128) = c"
    proof -
      have "c div 64 div 64 div 64 * 262144 + c div 64 div 64 mod 64 * 4096 + c div 64 mod 64 * 64 + c mod 64 = c"
        using p q r by linarith
      then show ?thesis unfolding div4096 div262144 by simp
    qed
    show ?thesis unfolding bs using decode4[OF a b1, of "128 + c div 64 mod 64" "128 + c mod 64" h rest] c by simp
  qed
qed


lemma scalar2: "b0 \<le> 223 \<Longrightarrow> is_cont b1 \<Longrightarrow> scalar ((b0 - 192) * 64 + (b1 - 128))"
  unfolding scalar_def is_cont_def by linarith

lemma scalar3:
  "224 \<le> b0 \<Longrightarrow> b0 \<le> 239 \<Longrightarrow> second_ok b0 b1 \<Longrightarrow> is_cont b2 \<Longrightarrow>
   scalar ((b0 - 224) * 4096 + (b1 - 128) * 64 + (b2 - 128))"
  unfolding scalar_def is_cont_def second_ok_def by (auto split: if_splits)

lemma scalar4:
  "240 \<le> b0 \<Longrightarrow> b0 \<le> 244 \<Longrightarrow> second_ok b0 b1 \<Longrightarrow> is_cont b2 \<Longrightarrow> is_cont b3 \<Longrightarrow>
   scalar ((b0 - 240) * 262144 + (b1 - 128) * 4096 + (b2 - 128) * 64 + (b3 - 128))"
  unfolding scalar_def is_cont_def second_ok_def by (auto split: if_splits)

lemma decode_step: "\<exists>bs'. length bs' \<le> length bs \<and> step_ok (b0 # bs) bs'"
proof -
  have L: "length bs' \<le> length bs" if "b0 # bs = pre @ bs'" "pre \<noteq> []" for pre bs'
    using that by (cases pre) auto
  have E: "\<And>c pre bs'. scalar c \<Longrightarrow> b0 # bs = pre @ bs' \<Longrightarrow> pre \<noteq> [] \<Longrightarrow>
      (\<forall>h rest. utf8_decode h (pre @ rest) = emit c (utf8_decode h rest)) \<Longrightarrow> ?thesis"
    unfolding step_ok_def using L by blast
  have B: "\<And>pre bs'. b0 # bs = pre @ bs' \<Longrightarrow> pre \<noteq> [] \<Longrightarrow>
      (\<forall>h. utf8_decode h (b0 # bs) = bad h (utf8_decode h bs')) \<Longrightarrow> ?thesis"
    unfolding step_ok_def using L by blast
  consider "b0 < 128" | "128 \<le> b0" "b0 < 194" | "194 \<le> b0" "b0 \<le> 223" | "224 \<le> b0" "b0 \<le> 239"
    | "240 \<le> b0" "b0 \<le> 244" | "244 < b0" by linarith
  then show ?thesis
  proof cases
    case 1
    show ?thesis by (rule E[of b0 "[b0]" bs]) (use 1 in \<open>auto simp: scalar_def decode1\<close>)
  next
    case 2
    show ?thesis by (rule B[of "[b0]" bs]) (use 2 in \<open>auto simp: utf8_decode.simps(2)\<close>)
  next
    case 6
    show ?thesis by (rule B[of "[b0]" bs]) (use 6 in \<open>auto simp: utf8_decode.simps(2)\<close>)
  next
    case 3
    show ?thesis
    proof (cases bs)
      case Nil
      show ?thesis by (rule B[of "[b0]" "[]"]) (use 3 Nil in \<open>auto simp: utf8_decode.simps(2)\<close>)
    next
      case (Cons b1 bs1)
      show ?thesis
      proof (cases "is_cont b1")
        case True
        show ?thesis by (rule E[of "(b0 - 192) * 64 + (b1 - 128)" "[b0, b1]" bs1]) (use 3 Cons True in \<open>auto simp: scalar2 decode2\<close>)
      next
        case False
        show ?thesis by (rule B[of "[b0]" bs]) (use 3 Cons False in \<open>auto simp: utf8_decode.simps(2)\<close>)
      qed
    qed
  next
    case 4
    show ?thesis
    proof (cases bs)
      case Nil
      show ?thesis by (rule B[of "[b0]" "[]"]) (use 4 Nil in \<open>auto simp: utf8_decode.simps(2)\<close>)
    next
      case (Cons b1 bs1)
      note bs = Cons
      show ?thesis
      proof (cases "second_ok b0 b1")
        case False
        show ?thesis by (rule B[of "[b0]" bs]) (use 4 bs False in \<open>auto simp: utf8_decode.simps(2)\<close>)
      next
        case True
        note s1 = True
        show ?thesis
        proof (cases bs1)
          case Nil
          show ?thesis by (rule B[of "[b0, b1]" "[]"]) (use 4 bs s1 Nil in \<open>auto simp: utf8_decode.simps(2)\<close>)
        next
          case (Cons b2 bs2)
          show ?thesis
          proof (cases "is_cont b2")
            case True
            show ?thesis by (rule E[of "(b0 - 224) * 4096 + (b1 - 128) * 64 + (b2 - 128)" "[b0, b1, b2]" bs2])
                (use 4 bs s1 Cons True in \<open>auto simp: scalar3 decode3\<close>)
          next
            case False
            show ?thesis by (rule B[of "[b0, b1]" bs1]) (use 4 bs s1 Cons False in \<open>auto simp: utf8_decode.simps(2)\<close>)
          qed
        qed
      qed
    qed
  next
    case 5
    show ?thesis
    proof (cases bs)
      case Nil
      show ?thesis by (rule B[of "[b0]" "[]"]) (use 5 Nil in \<open>auto simp: utf8_decode.simps(2)\<close>)
    next
      case (Cons b1 bs1)
      note bs = Cons
      show ?thesis
      proof (cases "second_ok b0 b1")
        case False
        show ?thesis by (rule B[of "[b0]" bs]) (use 5 bs False in \<open>auto simp: utf8_decode.simps(2)\<close>)
      next
        case True
        note s1 = True
        show ?thesis
        proof (cases bs1)
          case Nil
          show ?thesis by (rule B[of "[b0, b1]" "[]"]) (use 5 bs s1 Nil in \<open>auto simp: utf8_decode.simps(2)\<close>)
        next
          case (Cons b2 bs2)
          note bs1 = Cons
          show ?thesis
          proof (cases "is_cont b2")
            case False
            show ?thesis by (rule B[of "[b0, b1]" bs1]) (use 5 bs s1 bs1 False in \<open>auto simp: utf8_decode.simps(2)\<close>)
          next
            case True
            note s2 = True
            show ?thesis
            proof (cases bs2)
              case Nil
              show ?thesis by (rule B[of "[b0, b1, b2]" "[]"]) (use 5 bs s1 bs1 s2 Nil in \<open>auto simp: utf8_decode.simps(2)\<close>)
            next
              case (Cons b3 bs3)
              show ?thesis
              proof (cases "is_cont b3")
                case True
                show ?thesis
                  by (rule E[of "(b0 - 240) * 262144 + (b1 - 128) * 4096 + (b2 - 128) * 64 + (b3 - 128)" "[b0, b1, b2, b3]" bs3])
                    (use 5 bs s1 bs1 s2 Cons True in \<open>auto simp: scalar4 decode4\<close>)
              next
                case False
                show ?thesis by (rule B[of "[b0, b1, b2]" bs2]) (use 5 bs s1 bs1 s2 Cons False in \<open>auto simp: utf8_decode.simps(2)\<close>)
              qed
            qed
          qed
        qed
      qed
    qed
  qed
qed


lemma step_okD:
  assumes "step_ok bs bs'"
  shows "(\<exists>c. scalar c \<and> (\<forall>h. utf8_decode h bs = emit c (utf8_decode h bs')))
          \<or> (\<forall>h. utf8_decode h bs = bad h (utf8_decode h bs'))"
  using assms unfolding step_ok_def by blast

lemma decode_ignore_total: "\<exists>s. utf8_decode Ignore bs = Inr s"
proof (induction bs rule: length_induct)
  case (1 bs)
  show ?case
  proof (cases bs)
    case Nil
    then show ?thesis by simp
  next
    case (Cons b0 rest)
    obtain bs' where l: "length bs' \<le> length rest" and s: "step_ok (b0 # rest) bs'"
      using decode_step by blast
    have "length bs' < length bs" using l Cons by simp
    with 1 obtain t where t: "utf8_decode Ignore bs' = Inr t" by blast
    from step_okD[OF s] show ?thesis unfolding Cons using t by auto
  qed
qed

lemma decode_scalar: "utf8_decode h bs = Inr s \<Longrightarrow> list_all scalar s"
proof (induction bs arbitrary: s rule: length_induct)
  case (1 bs)
  show ?case
  proof (cases bs)
    case Nil
    then show ?thesis using 1 by simp
  next
    case (Cons b0 rest)
    obtain bs' where l: "length bs' \<le> length rest" and st: "step_ok (b0 # rest) bs'"
      using decode_step by blast
    have "length bs' < length bs" using l Cons by simp
    with "1.IH" have IH: "\<And>t. utf8_decode h bs' = Inr t \<Longrightarrow> list_all scalar t"
      by blast
    have f: "scalar 65533" by (simp add: scalar_def)
    from step_okD[OF st] show ?thesis
    proof
      assume "\<exists>c. scalar c \<and> (\<forall>h. utf8_decode h (b0 # rest) = emit c (utf8_decode h bs'))"
      then obtain c where c: "scalar c" "utf8_decode h bs = emit c (utf8_decode h bs')"
        using Cons by auto
      then show ?thesis using "1.prems" IH by (cases "utf8_decode h bs'") auto
    next
      assume "\<forall>h. utf8_decode h (b0 # rest) = bad h (utf8_decode h bs')"
      then have "utf8_decode h bs = bad h (utf8_decode h bs')" using Cons by auto
      then show ?thesis using "1.prems" IH f
        by (cases h; cases "utf8_decode h bs'") auto
    qed
  qed
qed

lemma decode_strict_ignore: "utf8_decode Strict bs = Inr s \<Longrightarrow> utf8_decode Ignore bs = Inr s"
proof (induction bs arbitrary: s rule: length_induct)
  case (1 bs)
  show ?case
  proof (cases bs)
    case Nil
    then show ?thesis using 1 by simp
  next
    case (Cons b0 rest)
    obtain bs' where l: "length bs' \<le> length rest" and st: "step_ok (b0 # rest) bs'"
      using decode_step by blast
    have "length bs' < length bs" using l Cons by simp
    with "1.IH" have IH: "\<And>t. utf8_decode Strict bs' = Inr t \<Longrightarrow> utf8_decode Ignore bs' = Inr t"
      by blast
    from step_okD[OF st] show ?thesis
    proof
      assume "\<exists>c. scalar c \<and> (\<forall>h. utf8_decode h (b0 # rest) = emit c (utf8_decode h bs'))"
      then obtain c where c: "\<And>h. utf8_decode h bs = emit c (utf8_decode h bs')"
        using Cons by auto
      show ?thesis using "1.prems" IH c[of Strict] c[of Ignore] by (cases "utf8_decode Strict bs'") auto
    next
      assume "\<forall>h. utf8_decode h (b0 # rest) = bad h (utf8_decode h bs')"
      then have "utf8_decode Strict bs = bad Strict (utf8_decode Strict bs')" using Cons by auto
      then show ?thesis using "1.prems" by simp
    qed
  qed
qed

lemma encode_char_scalar: "utf8_encode_char c \<noteq> None \<longleftrightarrow> scalar c"
  by (auto simp: utf8_encode_char_def scalar_def)

lemma encode_scalar: "utf8_encode s \<noteq> None \<longleftrightarrow> list_all scalar s"
  by (induction s) (auto simp: encode_char_scalar[symmetric] split: option.splits)

lemma decode_encode: "utf8_encode s = Some bs \<Longrightarrow> utf8_decode h bs = Inr s"
proof (induction s arbitrary: bs)
  case Nil
  then show ?case by simp
next
  case (Cons c cs)
  then obtain b r where b: "utf8_encode_char c = Some b" and r: "utf8_encode cs = Some r" and bs: "bs = b @ r"
    by (auto split: option.splits)
  show ?case unfolding bs using decode_encode_char[OF b, of h r] Cons.IH[OF r] by simp
qed

lemma encode_char_bytes: "utf8_encode_char c = Some bs \<Longrightarrow> \<forall>b\<in>set bs. b < 256"
  by (auto simp: utf8_encode_char_def split: if_splits)

lemma encode_bytes: "utf8_encode s = Some bs \<Longrightarrow> \<forall>b\<in>set bs. b < 256"
proof (induction s arbitrary: bs)
  case Nil
  then show ?case by simp
next
  case (Cons c cs)
  then obtain b r where b: "utf8_encode_char c = Some b" and r: "utf8_encode cs = Some r" and bs: "bs = b @ r"
    by (auto split: option.splits)
  show ?case unfolding bs using encode_char_bytes[OF b] Cons.IH[OF r] by auto
qed

lemma unat_of_nat_bytes: "\<forall>b\<in>set bs. b < 256 \<Longrightarrow> map unat (map of_nat bs :: byte list) = bs"
  by (induction bs) (auto simp: unat_of_nat)

lemma universal_newlines_no_cr: "13 \<notin> set (universal_newlines s)"
  by (induction s rule: universal_newlines.induct) (auto split: list.splits)

lemma universal_newlines_id: "13 \<notin> set s \<Longrightarrow> universal_newlines s = s"
  by (induction s rule: universal_newlines.induct) (auto split: list.splits)

lemma decode_error_kind: "utf8_decode h bs = Inl e \<Longrightarrow> e = UnicodeDecodeError"
proof (induction bs rule: length_induct)
  case (1 bs)
  show ?case
  proof (cases bs)
    case Nil
    then show ?thesis using "1.prems" by simp
  next
    case (Cons b0 rest)
    obtain bs' where l: "length bs' \<le> length rest" and st: "step_ok (b0 # rest) bs'"
      using decode_step by blast
    have "length bs' < length bs" using l Cons by simp
    with "1.IH" have IH: "utf8_decode h bs' = Inl e \<Longrightarrow> e = UnicodeDecodeError"
      by blast
    from step_okD[OF st] show ?thesis
    proof
      assume "\<exists>c. scalar c \<and> (\<forall>h. utf8_decode h (b0 # rest) = emit c (utf8_decode h bs'))"
      then obtain c where c: "utf8_decode h bs = emit c (utf8_decode h bs')"
        using Cons by auto
      then show ?thesis using "1.prems" IH by (cases "utf8_decode h bs'") auto
    next
      assume "\<forall>h. utf8_decode h (b0 # rest) = bad h (utf8_decode h bs')"
      then have "utf8_decode h bs = bad h (utf8_decode h bs')" using Cons by auto
      then show ?thesis using "1.prems" IH
        by (cases h; cases "utf8_decode h bs'") auto
    qed
  qed
qed

lemma read_text_error_kind: "read_text h bs = Inl e \<Longrightarrow> e = UnicodeDecodeError"
  by (auto simp: read_text_def split: sum.splits dest: decode_error_kind)

lemma read_text_ignore_total: "\<exists>s. read_text Ignore bs = Inr s"
  using decode_ignore_total[of "map unat bs"] by (auto simp: read_text_def)

lemma decode_ignore_subseq:
  "\<exists>kept s. subseq kept bs \<and> utf8_decode Strict kept = Inr s \<and> utf8_decode Ignore bs = Inr s"
proof (induction bs rule: length_induct)
  case (1 bs)
  show ?case
  proof (cases bs)
    case Nil
    have "subseq [] bs \<and> utf8_decode Strict [] = Inr [] \<and> utf8_decode Ignore bs = Inr []"
      using Nil by simp
    then show ?thesis by blast
  next
    case (Cons b0 rest)
    obtain bs' where l: "length bs' \<le> length rest" and st: "step_ok (b0 # rest) bs'"
      using decode_step by blast
    have "length bs' < length bs" using l Cons by simp
    with "1.IH" obtain kept s where k: "subseq kept bs'" "utf8_decode Strict kept = Inr s"
        "utf8_decode Ignore bs' = Inr s"
      by blast
    from st obtain pre where pre: "bs = pre @ bs'"
      and alt: "(\<exists>c. \<forall>h rest. utf8_decode h (pre @ rest) = emit c (utf8_decode h rest))
                 \<or> (\<forall>h. utf8_decode h bs = bad h (utf8_decode h bs'))"
      unfolding step_ok_def Cons by blast
    from alt show ?thesis
    proof
      assume "\<exists>c. \<forall>h rest. utf8_decode h (pre @ rest) = emit c (utf8_decode h rest)"
      then obtain c where c: "\<And>h rest. utf8_decode h (pre @ rest) = emit c (utf8_decode h rest)"
        by blast
      have "subseq (pre @ kept) bs" unfolding pre using k(1) by (simp add: subseq_append')
      moreover have "utf8_decode Strict (pre @ kept) = Inr (c # s)" using c k(2) by simp
      moreover have "utf8_decode Ignore bs = Inr (c # s)" unfolding pre using c k(3) by simp
      ultimately show ?thesis by blast
    next
      assume "\<forall>h. utf8_decode h bs = bad h (utf8_decode h bs')"
      then have "utf8_decode Ignore bs = Inr s" using k(3) by simp
      moreover have "subseq kept bs" unfolding pre using k(1) by (rule subseq_drop_many)
      ultimately show ?thesis using k(2) by blast
    qed
  qed
qed

lemma decode_strict_or_error:
  "utf8_decode Ignore bs = Inr s \<Longrightarrow>
   utf8_decode Strict bs = Inr s \<or> utf8_decode Strict bs = Inl UnicodeDecodeError"
proof (cases "utf8_decode Strict bs")
  case (Inl e)
  then show ?thesis using decode_error_kind by blast
next
  case (Inr t)
  assume "utf8_decode Ignore bs = Inr s"
  with decode_strict_ignore[OF Inr] show ?thesis using Inr by simp
qed

lemma decode_a_ff_b: "utf8_decode h [97, 255, 98] = emit 97 (bad h (Inr [98]))"
  by (simp add: decode1 utf8_decode.simps(2))

section \<open>Reading and writing one file\<close>

lemma lookup_append:
  "lookup n (p @ q) = (case lookup n p of None \<Rightarrow> None | Some m \<Rightarrow> lookup m q)"
  by (induction n p rule: lookup.induct) (auto split: option.splits)

lemma lookup_butlast: "lookup d p = Some n \<Longrightarrow> lookup d (butlast p) \<noteq> None"
proof (cases p rule: rev_cases)
  case Nil
  then show "lookup d p = Some n \<Longrightarrow> ?thesis" by simp
next
  case (snoc q c)
  then show "lookup d p = Some n \<Longrightarrow> ?thesis"
    by (auto simp: lookup_append split: option.splits)
qed

lemma fs_write_file:
  "lookup d p = Some (File old) \<Longrightarrow> \<exists>d'. fs_write p bs d = Inr d' \<and> lookup d' p = Some (File bs)"
proof (induction p bs d rule: fs_write.induct)
  case (4 c cs bs es)
  then obtain n where n: "map_of es c = Some n" "lookup n cs = Some (File old)"
    by (auto split: option.splits)
  with 4 obtain n' where "fs_write cs bs n = Inr n'" "lookup n' cs = Some (File bs)" by blast
  then show ?case using n by (simp add: update_conv')
qed auto

lemma splitlines_from_newline:
  "(cur \<noteq> [] \<or> s \<noteq> []) \<Longrightarrow> (s \<noteq> [] \<longrightarrow> \<not> is_linebreak (last s)) \<Longrightarrow>
   splitlines_from cur (s @ [10]) = splitlines_from cur s"
proof (induction cur s rule: splitlines_from.induct)
  case (1 cur)
  then show ?case by (simp add: is_linebreak_def)
next
  case (2 cur c cs)
  show ?case
  proof (cases cs)
    case Nil
    with 2 show ?thesis by (auto simp: is_linebreak_def)
  next
    case (Cons d ds)
    with 2 show ?thesis by (auto simp: is_linebreak_def split: if_splits)
  qed
qed

lemma splitlines_newline:
  "s \<noteq> [] \<Longrightarrow> \<not> is_linebreak (last s) \<Longrightarrow> splitlines (s @ [10]) = splitlines s"
  unfolding splitlines_def by (rule splitlines_from_newline) auto


lemma write_text_file:
  assumes "lookup d p = Some (File old)" "utf8_encode s = Some enc"
  shows "\<exists>d'. write_text p (JStr s) d = (None, d') \<and> lookup d' p = Some (File (map of_nat enc))"
proof -
  obtain d1 where d1: "fs_write p [] d = Inr d1" "lookup d1 p = Some (File [])"
    using fs_write_file[OF assms(1)] by blast
  obtain d2 where d2: "fs_write p (map of_nat enc) d1 = Inr d2" "lookup d2 p = Some (File (map of_nat enc))"
    using fs_write_file[OF d1(2)] by blast
  show ?thesis using d1 d2 assms(2) by (simp add: write_text_def)
qed

lemma update_existing_file:
  assumes "lookup (disk w) p = Some (File bs)" "read_text Strict bs = Inr old"
    and "utf8_encode new = Some enc" "old \<noteq> new"
  shows "\<exists>w'. update_or_create_file p (JStr new) w = (None, w') \<and>
           logged w' = logged w @ [FileUpdated p (length (splitlines old)) (length (splitlines new))] \<and>
           lookup (disk w') p = Some (File (map of_nat enc))"
proof -
  have dir: "os_path_exists (disk w) (butlast p)"
    using lookup_butlast[OF assms(1)] by (simp add: os_path_exists_def)
  have ex: "os_path_exists (disk w) p" using assms(1) by (simp add: os_path_exists_def)
  have rd: "fs_read p (disk w) = Inr bs" using assms(1) by (simp add: fs_read_def)
  obtain d' where d': "write_text p (JStr new) (disk w) = (None, d')" "lookup d' p = Some (File (map of_nat enc))"
    using write_text_file[OF assms(1,3)] by blast
  show ?thesis
    using dir ex rd d' assms(2,4)
    by (simp add: update_or_create_file_def logging_info_def content_lines_def)
qed

section \<open>The capture loop\<close>

lemma dict_loop_total: "\<exists>d. directory_to_dict_loop fnmatch exclusions entries result = Inr d"
proof (induction fnmatch exclusions entries result rule: directory_to_dict_loop.induct)
  case (1 fnmatch exclusions result)
  show ?case by simp
next
  case (2 fnmatch exclusions item node rest result)
  show ?case
  proof (cases "should_exclude fnmatch item exclusions")
    case True
    with 2 show ?thesis by simp
  next
    case False
    show ?thesis
    proof (cases node)
      case (File bs)
      obtain s where s: "read_text Ignore bs = Inr s" using read_text_ignore_total by blast
      from 2(2)[OF False File s] show ?thesis using False File s by simp
    next
      case (Dir sub)
      from 2(3)[OF False Dir] obtain d where d: "directory_to_dict_loop fnmatch exclusions sub [] = Inr d"
        by blast
      from 2(4)[OF False Dir d] show ?thesis using False Dir d by simp
    qed
  qed
qed

lemma dict_loop_other:
  "directory_to_dict_loop fnmatch exclusions entries result = Inr d \<Longrightarrow> item \<notin> fst ` set entries \<Longrightarrow>
   map_of d item = map_of result item"
proof (induction fnmatch exclusions entries result arbitrary: d rule: directory_to_dict_loop.induct)
  case (1 fnmatch exclusions result)
  then show ?case by simp
next
  case (2 fnmatch exclusions item' node rest result)
  show ?case
  proof (cases "should_exclude fnmatch item' exclusions")
    case True
    with 2 show ?thesis by simp
  next
    case False
    show ?thesis
    proof (cases node)
      case (File bs)
      obtain s where s: "read_text Ignore bs = Inr s" using read_text_ignore_total by blast
      have "directory_to_dict_loop fnmatch exclusions rest (AList.update item' (JStr s) result) = Inr d"
        using "2.prems"(1) False File s by simp
      from 2(2)[OF False File s this] "2.prems"(2) show ?thesis by (simp add: update_conv')
    next
      case (Dir sub)
      obtain d0 where d0: "directory_to_dict_loop fnmatch exclusions sub [] = Inr d0"
        using dict_loop_total by blast
      have "directory_to_dict_loop fnmatch exclusions rest (AList.update item' (JDict d0) result) = Inr d"
        using "2.prems"(1) False Dir d0 by simp
      from 2(4)[OF False Dir d0 this] "2.prems"(2) show ?thesis by (simp add: update_conv')
    qed
  qed
qed

lemma dict_loop_file:
  "directory_to_dict_loop fnmatch exclusions entries result = Inr d \<Longrightarrow> distinct (map fst entries) \<Longrightarrow>
   (item, File bs) \<in> set entries \<Longrightarrow> \<not> should_exclude fnmatch item exclusions \<Longrightarrow>
   read_text Ignore bs = Inr s \<Longrightarrow> map_of d item = Some (JStr s)"
proof (induction fnmatch exclusions entries result arbitrary: d rule: directory_to_dict_loop.induct)
  case (1 fnmatch exclusions result)
  then show ?case by simp
next
  case (2 fnmatch exclusions item' node rest result)
  have dr: "distinct (map fst rest)" and nin: "item' \<notin> fst ` set rest" using "2.prems"(2) by auto
  show ?case
  proof (cases "(item, File bs) \<in> set rest")
    case True
    note inrest = True
    show ?thesis
    proof (cases "should_exclude fnmatch item' exclusions")
      case True
      with 2(1)[OF True _ dr inrest "2.prems"(4,5)] "2.prems"(1) show ?thesis by simp
    next
      case False
      show ?thesis
      proof (cases node)
        case (File bs')
        obtain s' where s': "read_text Ignore bs' = Inr s'" using read_text_ignore_total by blast
        have "directory_to_dict_loop fnmatch exclusions rest (AList.update item' (JStr s') result) = Inr d"
          using "2.prems"(1) False File s' by simp
        from 2(2)[OF False File s' this dr inrest "2.prems"(4,5)] show ?thesis .
      next
        case (Dir sub)
        obtain d0 where d0: "directory_to_dict_loop fnmatch exclusions sub [] = Inr d0"
          using dict_loop_total by blast
        have "directory_to_dict_loop fnmatch exclusions rest (AList.update item' (JDict d0) result) = Inr d"
          using "2.prems"(1) False Dir d0 by simp
        from 2(4)[OF False Dir d0 this dr inrest "2.prems"(4,5)] show ?thesis .
      qed
    qed
  next
    case False
    then have eq: "item' = item" "node = File bs" using "2.prems"(3) by auto
    have "directory_to_dict_loop fnmatch exclusions rest (AList.update item (JStr s) result) = Inr d"
      using "2.prems"(1,4,5) eq by simp
    from dict_loop_other[OF this] nin eq show ?thesis by (simp add: update_conv')
  qed
qed

section \<open>Which exceptions reconcile raises\<close>

lemma makedirs_error_kind:
  "os_makedirs p d = Inl e \<Longrightarrow> e = FileExistsError \<or> e = NotADirectoryError"
  by (induction p d rule: os_makedirs.induct) (auto split: option.splits sum.splits)

lemma fs_write_error_kind:
  "fs_write p bs d = Inl e \<Longrightarrow> e = IsADirectoryError \<or> e = NotADirectoryError \<or> e = FileNotFoundError"
  by (induction p bs d rule: fs_write.induct) (auto split: option.splits sum.splits if_splits)

lemma fs_read_error_kind:
  "fs_read p d = Inl e \<Longrightarrow> e = FileNotFoundError \<or> e = IsADirectoryError"
  by (auto simp: fs_read_def split: option.splits fsnode.splits)

lemma write_text_str_error:
  "write_text p (JStr s) d = (Some e, d') \<Longrightarrow> \<not> malformed_document_error e"
  by (auto simp: write_text_def malformed_document_error_def split: sum.splits option.splits
      dest: fs_write_error_kind)

lemma write_text_not_str:
  "\<forall>s. content \<noteq> JStr s \<Longrightarrow> fst (write_text p content d) \<noteq> None"
  by (cases content) (auto simp: write_text_def split: sum.splits)

lemma update_str_error:
  assumes "update_or_create_file p (JStr s) w = (Some e, w')"
  shows "\<not> malformed_document_error e"
  using assms
  by (auto simp: update_or_create_file_def Let_def split: sum.splits if_splits prod.splits option.splits
      dest!: makedirs_error_kind fs_read_error_kind read_text_error_kind write_text_str_error)
    (auto simp: malformed_document_error_def)

lemma update_not_str:
  assumes "\<forall>s. content \<noteq> JStr s"
  shows "fst (update_or_create_file p content w) \<noteq> None"
proof -
  have "fst (write_text p content d) \<noteq> None" for d using write_text_not_str[OF assms] .
  then have w: "write_text p content d \<noteq> (None, d')" for d d' by (metis fst_conv)
  show ?thesis using assms w
    by (auto simp: update_or_create_file_def Let_def split: sum.splits if_splits prod.splits option.splits)
qed

lemma recurse_ill_shaped:
  "\<not> well_shaped_items d \<Longrightarrow> fst (recurse_structure_loop d p w) \<noteq> None"
proof (induction d p w rule: recurse_structure_loop.induct)
  case (1 current_path w)
  then show ?case by simp
next
  case (2 name content rest current_path w)
  let ?r = "case content of JDict d \<Rightarrow> recurse_structure_loop d (os_path_join_components current_path name) w
            | _ \<Rightarrow> update_or_create_file (os_path_join_components current_path name) content w"
  show ?case
  proof (cases "fst ?r")
    case (Some e)
    then show ?thesis by (cases ?r) (simp add: Let_def)
  next
    case None
    then obtain w' where r: "?r = (None, w')" by (cases ?r) auto
    have head: "case content of JStr s \<Rightarrow> True | JDict d \<Rightarrow> well_shaped_items d | _ \<Rightarrow> False"
    proof (cases content)
      case (JDict d)
      with None 2(1)[OF refl JDict] show ?thesis by auto
    next
      case (JStr s)
      then show ?thesis by simp
    qed (use None update_not_str[of content "os_path_join_components current_path name" w] in auto)
    with "2.prems" have "\<not> well_shaped_items rest" by simp
    from 2(2)[OF refl r[symmetric] refl this] show ?thesis using r by (simp add: Let_def)
  qed
qed

lemma recurse_well_shaped:
  "well_shaped_items d \<Longrightarrow> recurse_structure_loop d p w = (Some e, w') \<Longrightarrow> \<not> malformed_document_error e"
proof (induction d p w arbitrary: w' rule: recurse_structure_loop.induct)
  case (1 current_path w)
  then show ?case by simp
next
  case (2 name content rest current_path w)
  let ?r = "case content of JDict d \<Rightarrow> recurse_structure_loop d (os_path_join_components current_path name) w
            | _ \<Rightarrow> update_or_create_file (os_path_join_components current_path name) content w"
  obtain r0 w0 where r: "?r = (r0, w0)" by (cases ?r) auto
  show ?case
  proof (cases r0)
    case (Some e0)
    with r "2.prems"(2) have e: "e0 = e" "w0 = w'" by (auto simp: Let_def)
    show ?thesis
    proof (cases content)
      case (JDict d)
      with "2.prems"(1) have "well_shaped_items d" by simp
      from 2(1)[OF refl JDict this] r Some e JDict show ?thesis by simp
    next
      case (JStr s)
      with r Some e update_str_error show ?thesis by simp
    qed (use "2.prems"(1) in auto)
  next
    case None
    with r "2.prems"(2) have "recurse_structure_loop rest current_path w0 = (Some e, w')"
      by (simp add: Let_def)
    moreover have "well_shaped_items rest" using "2.prems"(1) by simp
    ultimately show ?thesis using 2(2)[OF refl r[symmetric] None] by blast
  qed
qed

section \<open>What reconcile leaves alone\<close>

lemma isdir_simps [simp]: "isdir (Dir es)" "\<not> isdir (File bs)"
  by (simp_all add: isdir_def)

lemma lookup_File_Cons [simp]: "lookup (File bs) q = (if q = [] then Some (File bs) else None)"
  by (cases q) auto

lemma fs_write_frame:
  "fs_write p bs d = Inr d' \<Longrightarrow> \<not> prefix q p \<Longrightarrow> lookup d' q = lookup d q"
proof (induction p bs d arbitrary: d' q rule: fs_write.induct)
  case (4 c cs bs es)
  from "4.prems"(2) obtain c' qs where q: "q = c' # qs" by (cases q) auto
  show ?case
  proof (cases "c' = c")
    case False
    with "4.prems"(1) q show ?thesis
      by (auto simp: update_conv' split: option.splits sum.splits if_splits)
  next
    case True
    with q "4.prems"(2) have np: "\<not> prefix qs cs" by simp
    show ?thesis
    proof (cases "map_of es c")
      case None
      with "4.prems"(1) np q True show ?thesis
        by (auto simp: update_conv' split: if_splits)
    next
      case (Some n)
      with "4.prems"(1) obtain n' where n': "fs_write cs bs n = Inr n'" "d' = Dir (AList.update c n' es)"
        by (auto split: sum.splits)
      from "4.IH"[OF Some n'(1) np] q True Some n'(2) show ?thesis by (simp add: update_conv')
    qed
  qed
qed auto

lemma fs_write_kind:
  "fs_write p bs d = Inr d' \<Longrightarrow> lookup d q = Some n \<Longrightarrow>
   \<exists>n'. lookup d' q = Some n' \<and> isdir n' = isdir n"
proof (induction p bs d arbitrary: d' q n rule: fs_write.induct)
  case (4 c cs bs es)
  show ?case
  proof (cases q)
    case Nil
    with "4.prems" show ?thesis by (auto split: option.splits sum.splits if_splits)
  next
    case (Cons c' qs)
    show ?thesis
    proof (cases "c' = c")
      case False
      with "4.prems" Cons show ?thesis
        by (auto simp: update_conv' split: option.splits sum.splits if_splits)
    next
      case True
      with "4.prems"(2) Cons obtain m where m: "map_of es c = Some m" "lookup m qs = Some n"
        by (auto split: option.splits)
      with "4.prems"(1) obtain m' where m': "fs_write cs bs m = Inr m'" "d' = Dir (AList.update c m' es)"
        by (auto split: sum.splits)
      from "4.IH"[OF m(1) m'(1) m(2)] Cons True m'(2) show ?thesis by (simp add: update_conv')
    qed
  qed
qed (auto split: if_splits)

lemma fs_write_result: "fs_write p bs d = Inr d' \<Longrightarrow> lookup d' p = Some (File bs)"
  by (induction p bs d arbitrary: d' rule: fs_write.induct)
    (auto simp: update_conv' split: option.splits sum.splits if_splits)

lemma lookup_fresh_dirs: "lookup (fresh_dirs cs) q = (if prefix q cs then Some (fresh_dirs (drop (length q) cs)) else None)"
proof (induction cs arbitrary: q)
  case Nil
  then show ?case by (cases q) auto
next
  case (Cons c cs)
  then show ?case by (cases q) auto
qed

lemma makedirs_frame:
  "os_makedirs p d = Inr d' \<Longrightarrow> \<not> prefix q p \<Longrightarrow> lookup d' q = lookup d q"
proof (induction p d arbitrary: d' q rule: os_makedirs.induct)
  case (3 c cs es)
  from "3.prems"(2) obtain c' qs where q: "q = c' # qs" by (cases q) auto
  show ?case
  proof (cases "c' = c")
    case False
    with "3.prems"(1) q show ?thesis
      by (auto simp: update_conv' split: option.splits sum.splits if_splits)
  next
    case True
    with q "3.prems"(2) have np: "\<not> prefix qs cs" by simp
    show ?thesis
    proof (cases "map_of es c")
      case None
      with "3.prems"(1) np q True show ?thesis
        by (auto simp: update_conv' lookup_fresh_dirs)
    next
      case (Some n)
      with "3.prems"(1) obtain n' where n': "os_makedirs cs n = Inr n'" "d' = Dir (AList.update c n' es)"
        by (auto split: sum.splits)
      from "3.IH"[OF Some n'(1) np] q True Some n'(2) show ?thesis by (simp add: update_conv')
    qed
  qed
qed auto

lemma makedirs_kind:
  "os_makedirs p d = Inr d' \<Longrightarrow> lookup d q = Some n \<Longrightarrow>
   \<exists>n'. lookup d' q = Some n' \<and> isdir n' = isdir n"
proof (induction p d arbitrary: d' q n rule: os_makedirs.induct)
  case (3 c cs es)
  show ?case
  proof (cases q)
    case Nil
    with "3.prems" show ?thesis by (auto split: option.splits sum.splits if_splits)
  next
    case (Cons c' qs)
    show ?thesis
    proof (cases "c' = c")
      case False
      with "3.prems" Cons show ?thesis
        by (auto simp: update_conv' split: option.splits sum.splits if_splits)
    next
      case True
      with "3.prems"(2) Cons obtain m where m: "map_of es c = Some m" "lookup m qs = Some n"
        by (auto split: option.splits)
      with "3.prems"(1) obtain m' where m': "os_makedirs cs m = Inr m'" "d' = Dir (AList.update c m' es)"
        by (auto split: sum.splits)
      from "3.IH"[OF m(1) m'(1) m(2)] Cons True m'(2) show ?thesis by (simp add: update_conv')
    qed
  qed
qed auto

lemma keeps_refl [simp]: "keeps d d"
  by (simp add: keeps_def)

lemma keeps_trans: "keeps d d' \<Longrightarrow> keeps d' d'' \<Longrightarrow> keeps d d''"
  unfolding keeps_def by (metis)

lemma same_outside_refl [simp]: "same_outside S d d"
  by (simp add: same_outside_def)

lemma same_outside_trans:
  "same_outside S d d' \<Longrightarrow> same_outside T d' d'' \<Longrightarrow> same_outside (S \<union> T) d d''"
  unfolding same_outside_def by auto

lemma same_outside_mono: "same_outside S d d' \<Longrightarrow> S \<subseteq> T \<Longrightarrow> same_outside T d d'"
  unfolding same_outside_def by blast

lemma fs_write_keeps: "fs_write p bs d = Inr d' \<Longrightarrow> keeps d d'"
  unfolding keeps_def using fs_write_kind by blast

lemma fs_write_outside: "fs_write p bs d = Inr d' \<Longrightarrow> same_outside {p} d d'"
  unfolding same_outside_def using fs_write_frame by blast

lemma makedirs_keeps: "os_makedirs p d = Inr d' \<Longrightarrow> keeps d d'"
  unfolding keeps_def using makedirs_kind by blast

lemma prefix_butlast: "prefix q (butlast p) \<Longrightarrow> prefix q p"
  by (metis prefix_order.trans prefixeq_butlast)

lemma makedirs_outside: "os_makedirs (butlast p) d = Inr d' \<Longrightarrow> same_outside {p} d d'"
  unfolding same_outside_def using makedirs_frame prefix_butlast by blast

lemma write_text_keeps: "write_text p content d = (r, d') \<Longrightarrow> keeps d d'"
  by (auto simp: write_text_def split: sum.splits json.splits option.splits
      intro: fs_write_keeps keeps_trans)

lemma write_text_outside: "write_text p content d = (r, d') \<Longrightarrow> same_outside {p} d d'"
proof -
  have t: "same_outside {p} a b \<Longrightarrow> same_outside {p} b c \<Longrightarrow> same_outside {p} a c" for a b c
    using same_outside_trans[of "{p}" a b "{p}" c] by simp
  show "write_text p content d = (r, d') \<Longrightarrow> ?thesis"
    by (auto simp: write_text_def split: sum.splits json.splits option.splits
      intro: fs_write_outside t)
qed

lemma update_keeps_outside:
  assumes "update_or_create_file p content w = (r, w')"
  shows "keeps (disk w) (disk w') \<and> same_outside {p} (disk w) (disk w')"
proof -
  let ?dir = "butlast p"
  define st where "st = (if \<not> os_path_exists (disk w) ?dir
            then (case os_makedirs ?dir (disk w) of
                    Inl e \<Rightarrow> Inl e
                  | Inr d \<Rightarrow> Inr (logging_info (DirCreated ?dir) (w\<lparr>disk := d\<rparr>)))
            else Inr w)"
  show ?thesis
  proof (cases st)
    case (Inl e)
    with assms have "w' = w" unfolding update_or_create_file_def Let_def st_def[symmetric] by simp
    then show ?thesis by simp
  next
    case (Inr w1)
    have k1: "keeps (disk w) (disk w1)" and o1: "same_outside {p} (disk w) (disk w1)"
      using Inr unfolding st_def
      by (auto simp: logging_info_def split: if_splits sum.splits intro: makedirs_keeps makedirs_outside)
    have t: "same_outside {p} a b \<Longrightarrow> same_outside {p} b c \<Longrightarrow> same_outside {p} a c" for a b c
      using same_outside_trans[of "{p}" a b "{p}" c] by simp
    have "keeps (disk w1) (disk w') \<and> same_outside {p} (disk w1) (disk w')"
      using assms Inr unfolding update_or_create_file_def Let_def st_def[symmetric]
      by (auto simp: logging_info_def split: if_splits sum.splits prod.splits option.splits
          dest: write_text_keeps write_text_outside)
    with k1 o1 show ?thesis using keeps_trans t by blast
  qed
qed

lemma recurse_keeps_outside:
  "recurse_plain d p w = (r, w') \<Longrightarrow>
   keeps (disk w) (disk w') \<and> same_outside (set (leaf_paths d p)) (disk w) (disk w')"
proof (induction d p w arbitrary: r w' rule: recurse_plain.induct)
  case (1 current_path w)
  then show ?case by simp
next
  case (2 name content rest current_path w)
  let ?ip = "current_path @ [name]"
  let ?h = "case content of JDict d \<Rightarrow> recurse_plain d ?ip w
            | _ \<Rightarrow> update_or_create_file ?ip content w"
  let ?L = "case content of JDict d \<Rightarrow> leaf_paths d ?ip | _ \<Rightarrow> [?ip]"
  obtain r0 w0 where h: "?h = (r0, w0)" by (cases ?h) auto
  have head: "keeps (disk w) (disk w0) \<and> same_outside (set ?L) (disk w) (disk w0)"
  proof (cases content)
    case (JDict d)
    with h 2(1)[OF refl JDict] show ?thesis by simp
  qed (use h update_keeps_outside[of ?ip content w r0 w0] in auto)
  show ?case
  proof (cases r0)
    case (Some e)
    with h "2.prems" have "w' = w0" by (simp add: Let_def)
    with head show ?thesis
      by (auto intro: same_outside_mono)
  next
    case None
    with h "2.prems" have "recurse_plain rest current_path w0 = (r, w')" by (simp add: Let_def)
    from 2(2)[OF refl h[symmetric] None this]
    have "keeps (disk w0) (disk w')" "same_outside (set (leaf_paths rest current_path)) (disk w0) (disk w')"
      by auto
    with head show ?thesis
      using keeps_trans same_outside_trans[of "set ?L" "disk w" "disk w0" "set (leaf_paths rest current_path)" "disk w'"]
      by auto
  qed
qed

lemma leaf_paths_below: "p \<in> set (leaf_paths d P) \<Longrightarrow> \<exists>r. r \<noteq> [] \<and> p = P @ r"
proof (induction d P rule: leaf_paths.induct)
  case (1 current_path)
  then show ?case by simp
next
  case (2 name content rest current_path)
  show ?case
  proof (cases "p \<in> set (leaf_paths rest current_path)")
    case True
    with 2 show ?thesis by blast
  next
    case False
    show ?thesis
    proof (cases content)
      case (JDict d)
      with False "2.prems" have "p \<in> set (leaf_paths d (current_path @ [name]))" by simp
      from 2(1)[OF JDict this] obtain r where "r \<noteq> []" "p = (current_path @ [name]) @ r" by blast
      then have "name # r \<noteq> [] \<and> p = current_path @ (name # r)" by simp
      then show ?thesis by blast
    qed (use False "2.prems" in auto)
  qed
qed







section \<open>The walk of a document of another shape\<close>

lemma first_other_None: "first_other d P = None \<longleftrightarrow> well_shaped_items d"
  by (induction d P rule: first_other.induct) (auto split: json.splits option.splits)

lemma first_other_value: "first_other d P = Some (p, c) \<Longrightarrow> other_value c"
  by (induction d P rule: first_other.induct) (auto split: json.splits option.splits simp: other_value_def)

lemma write_text_other:
  "other_value content \<Longrightarrow>
   \<exists>e d'. write_text p content d = (Some e, d') \<and>
     (e = TypeError \<and> fs_write p [] d = Inr d' \<or> (e \<noteq> TypeError \<and> fs_write p [] d = Inl e \<and> d' = d))"
  by (cases content) (auto simp: write_text_def other_value_def split: sum.splits dest: fs_write_error_kind)


lemma fs_write_new:
  "p \<noteq> [] \<Longrightarrow> lookup d (butlast p) = Some (Dir es) \<Longrightarrow> lookup d p = None \<Longrightarrow>
   \<exists>d'. fs_write p bs d = Inr d'"
proof (induction p bs d rule: fs_write.induct)
  case (4 c cs bs es')
  show ?case
  proof (cases cs)
    case Nil
    with 4 show ?thesis by (auto split: option.splits fsnode.splits)
  next
    case (Cons c' cs')
    with 4 show ?thesis by (auto split: option.splits)
  qed
qed (auto split: if_splits)

lemma update_other_value:
  assumes "other_value content"
  shows "\<exists>e w'. update_or_create_file p content w = (Some e, w') \<and>
           (e = TypeError \<and> lookup (disk w') p = Some (File []) \<or> io_error e) \<and>
           (can_open (disk w) p \<longrightarrow> e = TypeError)"
proof -
  have ne: "JStr s \<noteq> content" for s using assms by (auto simp: other_value_def)
  have wt: "\<exists>e d'. write_text p content d = (Some e, d') \<and>
      (e = TypeError \<and> lookup d' p = Some (File []) \<or> io_error e) \<and>
      ((\<exists>x. fs_write p [] d = Inr x) \<longrightarrow> e = TypeError)" for d
    using write_text_other[OF assms, of p d]
    by (auto simp: io_error_def dest: fs_write_result fs_write_error_kind)
  show ?thesis
  proof (cases "os_path_exists (disk w) (butlast p)")
    case False
    then have nb: "lookup (disk w) (butlast p) = None" by (simp add: os_path_exists_def)
    then have np: "lookup (disk w) p = None" using lookup_butlast[of "disk w" p] by (cases "lookup (disk w) p") auto
    have co: "\<not> can_open (disk w) p" using nb np by (simp add: can_open_def)
    show ?thesis
    proof (cases "os_makedirs (butlast p) (disk w)")
      case (Inl e)
      with False makedirs_error_kind[OF Inl] co show ?thesis
        by (auto simp: update_or_create_file_def io_error_def)
    next
      case (Inr d)
      let ?w1 = "logging_info (DirCreated (butlast p)) (w\<lparr>disk := d\<rparr>)"
      have d1: "disk ?w1 = d" by (simp add: logging_info_def)
      from wt[of d] obtain e d' where w: "write_text p content d = (Some e, d')"
        "e = TypeError \<and> lookup d' p = Some (File []) \<or> io_error e" by blast
      show ?thesis
      proof (cases "os_path_exists d p")
        case False
        with \<open>\<not> os_path_exists (disk w) (butlast p)\<close> Inr w co show ?thesis
          by (auto simp: update_or_create_file_def Let_def d1 logging_info_def)
      next
        case True
        show ?thesis
        proof (cases "fs_read p d")
          case (Inl e')
          with True \<open>\<not> os_path_exists (disk w) (butlast p)\<close> Inr co fs_read_error_kind[OF Inl]
          show ?thesis by (auto simp: update_or_create_file_def Let_def d1 logging_info_def io_error_def)
        next
          case (Inr bs)
          show ?thesis
          proof (cases "read_text Strict bs")
            case (Inl e')
            with True \<open>\<not> os_path_exists (disk w) (butlast p)\<close> \<open>os_makedirs (butlast p) (disk w) = Inr d\<close>
              Inr co read_text_error_kind[OF Inl]
            show ?thesis by (auto simp: update_or_create_file_def Let_def d1 logging_info_def io_error_def)
          next
            case (Inr old)
            with True \<open>\<not> os_path_exists (disk w) (butlast p)\<close> \<open>os_makedirs (butlast p) (disk w) = Inr d\<close>
              \<open>fs_read p d = Inr bs\<close> co w ne
            show ?thesis by (auto simp: update_or_create_file_def Let_def d1 logging_info_def)
          qed
        qed
      qed
    qed
  next
    case True
    from wt[of "disk w"] obtain e d' where w: "write_text p content (disk w) = (Some e, d')"
      "e = TypeError \<and> lookup d' p = Some (File []) \<or> io_error e"
      "(\<exists>x. fs_write p [] (disk w) = Inr x) \<longrightarrow> e = TypeError" by blast
    show ?thesis
    proof (cases "lookup (disk w) p")
      case None
      have "e = TypeError" if "can_open (disk w) p"
      proof -
        from that None obtain es where "p \<noteq> []" "lookup (disk w) (butlast p) = Some (Dir es)"
          by (auto simp: can_open_def split: option.splits fsnode.splits)
        from fs_write_new[OF this None] w(3) show ?thesis by blast
      qed
      with True None w show ?thesis
        by (auto simp: update_or_create_file_def Let_def os_path_exists_def)
    next
      case (Some n)
      show ?thesis
      proof (cases n)
        case (Dir es)
        with True Some show ?thesis
          by (auto simp: update_or_create_file_def Let_def os_path_exists_def fs_read_def io_error_def can_open_def)
      next
        case (File bs)
        show ?thesis
        proof (cases "read_text Strict bs")
          case (Inl e')
          with True Some File read_text_error_kind[OF Inl] show ?thesis
            by (auto simp: update_or_create_file_def Let_def os_path_exists_def fs_read_def io_error_def can_open_def)
        next
          case (Inr old)
          from fs_write_file[of "disk w" p bs "[]"] Some File w(3) have "e = TypeError" by auto
          with True Some File Inr w ne show ?thesis
            by (auto simp: update_or_create_file_def Let_def os_path_exists_def fs_read_def)
        qed
      qed
    qed
  qed
qed

lemma walk_to_first_other:
  "first_other d P = Some (p, c) \<Longrightarrow>
   recurse_structure_loop d P w =
     (case recurse_structure_loop (before_other d) P w of
        (Some e, w1) \<Rightarrow> (Some e, w1)
      | (None, w1) \<Rightarrow> update_or_create_file p c w1)"
proof (induction d P w arbitrary: p c rule: recurse_structure_loop.induct)
  case (1 P w)
  then show ?case by simp
next
  case (2 name content rest P w)
  let ?ip = "os_path_join_components P name"
  have other: "recurse_structure_loop ((name, content) # rest) P w = update_or_create_file ?ip content w"
    if "other_value content"
  proof -
    from update_other_value[OF that, of ?ip w] obtain e w' where
      "update_or_create_file ?ip content w = (Some e, w')" by blast
    with that show ?thesis by (cases content) (auto simp: Let_def other_value_def)
  qed
  show ?case
  proof (cases content)
    case (JStr s)
    with "2.prems" have f: "first_other rest P = Some (p, c)" by simp
    obtain r0 w0 where h: "update_or_create_file ?ip content w = (r0, w0)"
      by (cases "update_or_create_file ?ip content w") auto
    show ?thesis
    proof (cases r0)
      case None
      from "2.IH"(2)[OF refl _ None f, of w0] h JStr None show ?thesis by (simp add: Let_def)
    next
      case (Some e)
      with h JStr show ?thesis by (simp add: Let_def)
    qed
  next
    case (JDict sub)
    obtain r0 w0 where h: "recurse_structure_loop sub ?ip w = (r0, w0)"
      by (cases "recurse_structure_loop sub ?ip w") auto
    show ?thesis
    proof (cases "well_shaped_items sub")
      case True
      then have "first_other sub ?ip = None" by (simp add: first_other_None)
      with "2.prems" JDict have f: "first_other rest P = Some (p, c)" by simp
      show ?thesis
      proof (cases r0)
        case None
        from "2.IH"(2)[OF refl _ None f, of w0] h JDict None True show ?thesis by (simp add: Let_def)
      next
        case (Some e)
        with h JDict True show ?thesis by (simp add: Let_def)
      qed
    next
      case False
      then obtain x where "first_other sub ?ip = Some x"
        using first_other_None[of sub ?ip] by (cases "first_other sub ?ip") auto
      with "2.prems" JDict have f: "first_other sub ?ip = Some (p, c)" by simp
      from first_other_value[OF f] update_other_value[of c p]
      have fails: "\<exists>e w'. update_or_create_file p c w1 = (Some e, w')" for w1 by blast
      from "2.IH"(1)[OF refl JDict f]
      have eq: "recurse_structure_loop sub ?ip w =
        (case recurse_structure_loop (before_other sub) ?ip w of
           (Some e, w1) \<Rightarrow> (Some e, w1)
         | (None, w1) \<Rightarrow> update_or_create_file p c w1)" .
      obtain r1 w1 where b: "recurse_structure_loop (before_other sub) ?ip w = (r1, w1)"
        by (cases "recurse_structure_loop (before_other sub) ?ip w") auto
      show ?thesis
      proof (cases r1)
        case None
        from fails[of w1] obtain e w' where "update_or_create_file p c w1 = (Some e, w')" by blast
        with eq b None JDict False show ?thesis by (simp add: Let_def)
      next
        case (Some e)
        with eq b JDict False show ?thesis by (simp add: Let_def)
      qed
    qed
  qed (use "2.prems" other in \<open>auto simp: other_value_def\<close>)
qed

section \<open>The flat document and its sections\<close>

lemma split_sep_nonempty [simp]: "split_sep s \<noteq> []"
  by (induction s) (auto split: list.splits)

lemma split_sep_no_slash: "47 \<notin> set s \<Longrightarrow> split_sep s = [s]"
  by (induction s) (auto split: list.splits)

lemma split_sep_append: "split_sep (a @ 47 # b) = split_sep a @ split_sep b"
  by (induction a) (auto split: list.splits)

lemma path_name_last:
  assumes "item \<noteq> []" "item \<noteq> [46]"
  shows "(case filter (\<lambda>x. x \<noteq> [] \<and> x \<noteq> [46]) (xs @ [item]) of [] \<Rightarrow> [] | y # ys \<Rightarrow> last (y # ys)) = (item::pystr)"
proof -
  define F where "F = filter (\<lambda>x. x \<noteq> [] \<and> x \<noteq> [46::nat]) xs"
  have "filter (\<lambda>x. x \<noteq> [] \<and> x \<noteq> [46]) (xs @ [item]) = F @ [item]"
    using assms by (simp add: F_def)
  then show ?thesis by (cases F) auto
qed

lemma path_name_join: 
  assumes "valid_name item"
  shows "path_name (os_path_join path item) = item"
proof -
  from assms have v: "item \<noteq> []" "item \<noteq> [46]" "47 \<notin> set item" "hd item \<noteq> 47"
    by (auto simp: valid_name_def) (metis hd_in_set)
  have a: "path_name (p @ 47 # item) = item" for p
    unfolding path_name_def split_sep_append split_sep_no_slash[OF v(3)]
    using path_name_last[OF v(1,2)] by simp
  have b: "path_name item = item"
    unfolding path_name_def split_sep_no_slash[OF v(3)] using path_name_last[OF v(1,2), of "[]"] by simp
  show ?thesis
  proof (cases "path = []")
    case True
    with v b show ?thesis by (simp add: os_path_join_def)
  next
    case False
    show ?thesis
    proof (cases "last path = 47")
      case True
      with False have "path = butlast path @ [47]" by (metis append_butlast_last_id)
      then have "os_path_join path item = butlast path @ 47 # item"
        using v False True by (simp add: os_path_join_def)
      with a show ?thesis by simp
    next
      case l: False
      with False v have "os_path_join path item = path @ 47 # item" by (simp add: os_path_join_def)
      with a show ?thesis by simp
    qed
  qed
qed

lemma path_suffix_join: "valid_name item \<Longrightarrow> path_suffix (os_path_join path item) = name_suffix item"
  by (simp add: path_suffix_def path_name_join)

lemma read_text_file_text: "read_text Ignore bs = Inr (file_text bs)"
  using read_text_ignore_total[of bs] by (auto simp: file_text_def)

lemma markdown_loop_elements:
  "directory_to_markdown_loop fnmatch exclusions path entries acc =
     Inr (acc @ markdown_elements fnmatch exclusions path entries)"
proof (induction fnmatch exclusions path entries acc rule: directory_to_markdown_loop.induct)
  case (1 fnmatch exclusions path markdown_content)
  show ?case by simp
next
  case (2 fnmatch exclusions path item node rest markdown_content)
  show ?case
  proof (cases "should_exclude fnmatch item exclusions")
    case True
    with 2(1) show ?thesis by simp
  next
    case False
    show ?thesis
    proof (cases node)
      case (File bs)
      from 2(2)[OF False refl File read_text_file_text] False File
      show ?thesis by (simp add: read_text_file_text Let_def)
    next
      case (Dir sub)
      have inner: "directory_to_markdown_loop fnmatch exclusions (os_path_join path item) sub [] =
          Inr (markdown_elements fnmatch exclusions (os_path_join path item) sub)"
        using 2(3)[OF False refl Dir] by simp
      from 2(4)[OF False refl Dir inner] False Dir inner
      show ?thesis by (simp add: Let_def)
    qed
  qed
qed

lemma str_join_append:
  "xs \<noteq> [] \<Longrightarrow> ys \<noteq> [] \<Longrightarrow> str_join sep (xs @ ys) = str_join sep xs @ sep @ str_join sep ys"
proof (induction sep xs rule: str_join.induct)
  case (2 sep x)
  then show ?case by (cases ys) auto
qed auto

lemma str_join_nested:
  "ys \<noteq> [] \<Longrightarrow> str_join sep (str_join sep ys # zs) = str_join sep (ys @ zs)"
proof (cases zs)
  case Nil
  then show ?thesis by simp
next
  case (Cons z zs')
  assume "ys \<noteq> []"
  then show ?thesis using str_join_append[of ys zs sep] Cons by simp
qed

lemma str_join_cong_tail:
  assumes "str_join sep zs = str_join sep zs'" "zs = [] \<longleftrightarrow> zs' = []"
  shows "str_join sep (ys @ zs) = str_join sep (ys @ zs')"
proof (cases "ys = [] \<or> zs = []")
  case True
  with assms show ?thesis by auto
next
  case False
  with assms(2) have "ys \<noteq> []" "zs \<noteq> []" "zs' \<noteq> []" by auto
  then show ?thesis using assms(1) by (simp add: str_join_append)
qed

lemma has_file_sections:
  "has_file fnmatch exclusions entries \<Longrightarrow> flat_sections fnmatch exclusions path entries \<noteq> []"
  by (induction fnmatch exclusions path entries rule: flat_sections.induct)
    (auto split: fsnode.splits)

lemma elements_sections:
  "valid_names entries \<Longrightarrow> dirs_have_files fnmatch exclusions entries \<Longrightarrow>
   str_join [10] (markdown_elements fnmatch exclusions path entries) =
     str_join [10] (flat_sections fnmatch exclusions path entries) \<and>
   (markdown_elements fnmatch exclusions path entries = [] \<longleftrightarrow>
     flat_sections fnmatch exclusions path entries = [])"
proof (induction fnmatch exclusions path entries rule: flat_sections.induct)
  case (1 fnmatch exclusions path)
  show ?case by simp
next
  case (2 fnmatch exclusions path item node rest)
  let ?E = "markdown_elements fnmatch exclusions path rest"
  let ?F = "flat_sections fnmatch exclusions path rest"
  have rest: "str_join [10] ?E = str_join [10] ?F" "?E = [] \<longleftrightarrow> ?F = []"
    using 2(2) "2.prems" by auto
  show ?case
  proof (cases "should_exclude fnmatch item exclusions")
    case True
    with rest show ?thesis by simp
  next
    case False
    have v: "valid_name item" using "2.prems"(1) by simp
    show ?thesis
    proof (cases node)
      case (File bs)
      have "str_join [10] ([x] @ ?E) = str_join [10] ([x] @ ?F)" for x
        using rest by (rule str_join_cong_tail)
      with False File v show ?thesis by (simp add: path_suffix_join)
    next
      case (Dir sub)
      let ?S = "flat_sections fnmatch exclusions (os_path_join path item) sub"
      have hs: "has_file fnmatch exclusions sub" "dirs_have_files fnmatch exclusions sub" "valid_names sub"
        using "2.prems" False Dir by auto
      from 2(1)[OF False Dir hs(3,2)]
      have sub: "str_join [10] (markdown_elements fnmatch exclusions (os_path_join path item) sub) = str_join [10] ?S"
        by simp
      have ne: "?S \<noteq> []" using has_file_sections[OF hs(1)] .
      have "str_join [10] (str_join [10] ?S # ?E) = str_join [10] (?S @ ?E)"
        using ne by (rule str_join_nested)
      also have "\<dots> = str_join [10] (?S @ ?F)" using rest by (rule str_join_cong_tail)
      finally show ?thesis using False Dir sub ne by simp
    qed
  qed
qed

lemma read_ascii_h: "read_text Ignore [104] = Inr [104]" "read_text Ignore [105] = Inr [105]"
  by (simp_all add: read_text_def decode1)

section \<open>Reconcile in an empty place, and capture of the result\<close>

lemma update_append_new: "k \<notin> fst ` set xs \<Longrightarrow> AList.update k v xs = xs @ [(k, v)]"
  by (induction xs) auto

lemma map_of_None_iff: "map_of xs k = None \<longleftrightarrow> k \<notin> fst ` set xs"
  by (simp add: map_of_eq_None_iff)

lemma entries_at_empty [simp]: "entries_at (Dir []) cs = Some []"
  by (induction cs) auto

lemma put_dir_fresh: "put_dir cs [] (Dir []) = fresh_dirs cs"
  by (induction cs) auto

lemma makedirs_put_dir:
  "entries_at d P = Some pre \<Longrightarrow> lookup d P = None \<Longrightarrow>
   pre = [] \<and> os_makedirs P d = Inr (put_dir P [] d)"
proof (induction P d rule: os_makedirs.induct)
  case (3 c cs es)
  show ?case
  proof (cases "map_of es c")
    case None
    with "3.prems" show ?thesis by (simp add: put_dir_fresh)
  next
    case (Some n)
    with "3.prems" have "entries_at n cs = Some pre" "lookup n cs = None" by auto
    from "3.IH"[OF Some this] Some show ?thesis by simp
  qed
qed auto

lemma entries_at_lookup:
  "entries_at d P = Some pre \<Longrightarrow> lookup d P \<noteq> None \<Longrightarrow> lookup d P = Some (Dir pre)"
proof (induction d P rule: lookup.induct)
  case (1 n)
  then show ?case by (cases n) auto
next
  case (3 es c cs)
  then show ?case by (cases "map_of es c") auto
qed auto

lemma lookup_entries_at: "lookup d P = Some (Dir pre) \<Longrightarrow> entries_at d P = Some pre"
proof (induction d P rule: lookup.induct)
  case (3 es c cs)
  then show ?case by (cases "map_of es c") auto
qed auto

lemma put_dir_same: "lookup d P = Some (Dir pre) \<Longrightarrow> put_dir P pre d = d"
proof (induction d P rule: lookup.induct)
  case (3 es c cs)
  then obtain n where n: "map_of es c = Some n" "lookup n cs = Some (Dir pre)"
    by (cases "map_of es c") auto
  from "3.IH"[OF n] n(1) show ?case by (simp add: update_triv)
qed auto

lemma lookup_put_dir: "entries_at d P = Some pre \<Longrightarrow> lookup (put_dir P new d) P = Some (Dir new)"
proof (induction P new d rule: put_dir.induct)
  case (3 c cs new es)
  then show ?case by (simp add: update_conv')
qed auto

lemma put_dir_twice: "put_dir P x (put_dir P y d) = put_dir P x d"
  by (induction P y d rule: put_dir.induct) (auto simp: update_conv')

lemma fs_write_put_dir:
  "lookup d P = Some (Dir pre) \<Longrightarrow> map_of pre n = None \<or> (\<exists>old. map_of pre n = Some (File old)) \<Longrightarrow>
   fs_write (P @ [n]) bs d = Inr (put_dir P (AList.update n (File bs) pre) d)"
proof (induction d P rule: lookup.induct)
  case (1 d)
  then show ?case by auto
next
  case (3 es c cs)
  then obtain m where m: "map_of es c = Some m" "lookup m cs = Some (Dir pre)"
    by (cases "map_of es c") auto
  from "3.IH"[OF m "3.prems"(2)] m(1) show ?case by simp
qed auto

lemma put_dir_child:
  "entries_at d P = Some pre \<Longrightarrow> map_of pre n = None \<Longrightarrow>
   put_dir (P @ [n]) X d = put_dir P (pre @ [(n, Dir X)]) d \<and> entries_at d (P @ [n]) = Some []"
proof (induction d P rule: entries_at.induct)
  case (2 es)
  then have "n \<notin> fst ` set es" by (simp add: map_of_None_iff)
  with 2 show ?case by (simp add: update_append_new)
next
  case (3 es c cs)
  then show ?case by simp
qed auto

lemma create_file_put_dir:
  assumes "entries_at (disk w) P = Some pre" "n \<notin> fst ` set pre" "utf8_encode s = Some bs"
  shows "\<exists>w'. update_or_create_file (P @ [n]) (JStr s) w = (None, w') \<and>
           disk w' = put_dir P (pre @ [(n, File (map of_nat bs))]) (disk w)"
proof -
  define st where "st = (if \<not> os_path_exists (disk w) P
            then (case os_makedirs P (disk w) of
                    Inl e \<Rightarrow> Inl e
                  | Inr d \<Rightarrow> Inr (logging_info (DirCreated P) (w\<lparr>disk := d\<rparr>)))
            else Inr w)"
  have "\<exists>w1. st = Inr w1 \<and> lookup (disk w1) P = Some (Dir pre) \<and> disk w1 = put_dir P pre (disk w)"
  proof (cases "lookup (disk w) P")
    case None
    from makedirs_put_dir[OF assms(1) None]
    have p: "pre = []" and m: "os_makedirs P (disk w) = Inr (put_dir P [] (disk w))" by auto
    have "lookup (put_dir P [] (disk w)) P = Some (Dir [])" using lookup_put_dir[OF assms(1)] .
    with None p m show ?thesis
      by (simp add: st_def os_path_exists_def logging_info_def)
  next
    case (Some m)
    with entries_at_lookup[OF assms(1)] have l: "lookup (disk w) P = Some (Dir pre)" by simp
    with put_dir_same[OF l] show ?thesis by (simp add: st_def os_path_exists_def)
  qed
  then obtain w1 where st: "st = Inr w1" and l1: "lookup (disk w1) P = Some (Dir pre)"
    and d1: "disk w1 = put_dir P pre (disk w)" by blast
  have none: "map_of pre n = None" using assms(2) by (simp add: map_of_None_iff)
  have nex: "\<not> os_path_exists (disk w1) (P @ [n])"
    using l1 none by (simp add: os_path_exists_def lookup_append)
  let ?B = "map of_nat bs :: byte list"
  let ?d2 = "put_dir P (AList.update n (File []) pre) (disk w1)"
  have wr1: "fs_write (P @ [n]) [] (disk w1) = Inr ?d2"
    using fs_write_put_dir[OF l1] none by blast
  have l2: "lookup ?d2 P = Some (Dir (AList.update n (File []) pre))"
    using lookup_put_dir[OF lookup_entries_at[OF l1]] .
  have "map_of (AList.update n (File []) pre) n = Some (File [])" by (simp add: update_conv')
  then have wr2: "fs_write (P @ [n]) ?B ?d2 =
      Inr (put_dir P (AList.update n (File ?B) (AList.update n (File []) pre)) ?d2)"
    using fs_write_put_dir[OF l2] by blast
  have fin: "put_dir P (AList.update n (File ?B) (AList.update n (File []) pre)) ?d2
      = put_dir P (pre @ [(n, File ?B)]) (disk w)"
  proof -
    have "AList.update n (File ?B) (AList.update n (File []) pre) = pre @ [(n, File ?B)]"
      by (subst update_last) (rule update_append_new[OF assms(2)])
    then show ?thesis unfolding d1 by (simp add: put_dir_twice)
  qed
  have wt: "write_text (P @ [n]) (JStr s) (disk w1) = (None, put_dir P (pre @ [(n, File ?B)]) (disk w))"
    using wr1 wr2 fin assms(3) by (simp add: write_text_def)
  have "update_or_create_file (P @ [n]) (JStr s) w =
      (None, logging_info (FileCreated (P @ [n])) (w1\<lparr>disk := put_dir P (pre @ [(n, File ?B)]) (disk w)\<rparr>))"
    unfolding update_or_create_file_def Let_def butlast_snoc st_def[symmetric]
    using st nex wt by simp
  then show ?thesis by (simp add: logging_info_def)
qed

lemma recurse_put_dir:
  "good_items d \<Longrightarrow> entries_at (disk w) P = Some pre \<Longrightarrow> fst ` set d \<inter> fst ` set pre = {} \<Longrightarrow>
   (d = [] \<longrightarrow> lookup (disk w) P = Some (Dir pre)) \<Longrightarrow>
   \<exists>w'. recurse_plain d P w = (None, w') \<and> disk w' = put_dir P (pre @ materialize d) (disk w)"
proof (induction d P w arbitrary: pre rule: recurse_plain.induct)
  case (1 current_path w)
  then show ?case by (simp add: put_dir_same)
next
  case (2 name content rest P w)
  let ?h = "case content of JDict d \<Rightarrow> recurse_plain d (P @ [name]) w
            | _ \<Rightarrow> update_or_create_file (P @ [name]) content w"
  let ?x = "case content of JDict d \<Rightarrow> Dir (materialize d) | JStr s \<Rightarrow> File (encode_bytes s)
            | _ \<Rightarrow> File []"
  have nin: "name \<notin> fst ` set pre" "name \<notin> fst ` set rest" "fst ` set rest \<inter> fst ` set pre = {}"
    and gr: "good_items rest"
    using "2.prems"(1,3) by auto
  have "\<exists>w0. ?h = (None, w0) \<and> disk w0 = put_dir P (pre @ [(name, ?x)]) (disk w)"
  proof (cases content)
    case (JStr s)
    with "2.prems"(1) obtain bs where bs: "utf8_encode s = Some bs" by auto
    from create_file_put_dir[OF "2.prems"(2) nin(1) bs] JStr bs show ?thesis
      by (simp add: encode_bytes_def)
  next
    case (JDict d')
    with "2.prems"(1) have g: "good_items d'" "d' \<noteq> []" by auto
    have none: "map_of pre name = None" using nin(1) by (simp add: map_of_None_iff)
    from put_dir_child[OF "2.prems"(2) none]
    have pc: "\<And>X. put_dir (P @ [name]) X (disk w) = put_dir P (pre @ [(name, Dir X)]) (disk w)"
      and ea: "entries_at (disk w) (P @ [name]) = Some []" by auto
    from "2.IH"(1)[OF refl JDict g(1) ea] g(2)
    obtain w0 where "recurse_plain d' (P @ [name]) w = (None, w0)"
      "disk w0 = put_dir (P @ [name]) ([] @ materialize d') (disk w)" by auto
    with pc JDict show ?thesis by simp
  qed (use "2.prems"(1) in auto)
  then obtain w0 where h: "?h = (None, w0)"
    and d0: "disk w0 = put_dir P (pre @ [(name, ?x)]) (disk w)" by blast
  have l0: "lookup (disk w0) P = Some (Dir (pre @ [(name, ?x)]))"
    unfolding d0 using lookup_put_dir[OF "2.prems"(2)] .
  have dis: "fst ` set rest \<inter> fst ` set (pre @ [(name, ?x)]) = {}" using nin by auto
  from "2.IH"(2)[OF refl h[symmetric] refl gr lookup_entries_at[OF l0] dis] l0
  obtain w' where r: "recurse_plain rest P w0 = (None, w')"
    and d': "disk w' = put_dir P ((pre @ [(name, ?x)]) @ materialize rest) (disk w0)" by auto
  have "recurse_plain ((name, content) # rest) P w = (None, w')"
    using h r by (simp add: Let_def)
  moreover have "disk w' = put_dir P (pre @ materialize ((name, content) # rest)) (disk w)"
    unfolding d' d0 by (simp add: put_dir_twice)
  ultimately show ?case by blast
qed

lemma to_doc_names [simp]: "fst ` set (to_doc es) = fst ` set es"
  by (induction es rule: to_doc.induct) auto

lemma to_doc_Nil_iff [simp]: "to_doc es = [] \<longleftrightarrow> es = []"
  by (cases es rule: to_doc.cases) auto

lemma materialize_names [simp]: "fst ` set (materialize d) = fst ` set d"
  by (induction d rule: materialize.induct) auto

lemma dict_loop_to_doc:
  "unique_names es \<Longrightarrow> fst ` set result \<inter> fst ` set es = {} \<Longrightarrow>
   directory_to_dict_loop fnmatch [] es result = Inr (result @ to_doc es)"
proof (induction fnmatch "[]::pystr list" es result rule: directory_to_dict_loop.induct)
  case (1 fnmatch result)
  show ?case by simp
next
  case (2 fnmatch item node rest result)
  have ne: "\<not> should_exclude fnmatch item []" by (simp add: should_exclude_def)
  have nin: "item \<notin> fst ` set result" "item \<notin> fst ` set rest" "unique_names rest"
    "fst ` set result \<inter> fst ` set rest = {}"
    using "2.prems" by auto
  show ?case
  proof (cases node)
    case (File bs)
    have r: "read_text Ignore bs = Inr (file_text bs)" by (rule read_text_file_text)
    have "fst ` set (AList.update item (JStr (file_text bs)) result) \<inter> fst ` set rest = {}"
      using nin by (auto simp: dom_update)
    from "2.hyps"(2)[OF ne File r nin(3) this] ne File r nin(1)
    show ?thesis by (simp add: update_append_new)
  next
    case (Dir sub)
    have us: "unique_names sub" using "2.prems"(1) Dir by simp
    have inner: "directory_to_dict_loop fnmatch [] sub [] = Inr (to_doc sub)"
      using "2.hyps"(3)[OF ne Dir us] by simp
    have "fst ` set (AList.update item (JDict (to_doc sub)) result) \<inter> fst ` set rest = {}"
      using nin by (auto simp: dom_update)
    from "2.hyps"(4)[OF ne Dir inner nin(3) this] ne Dir inner nin(1)
    show ?thesis by (simp add: update_append_new)
  qed
qed

lemma universal_newlines_set: "set (universal_newlines s) \<subseteq> insert 10 (set s)"
proof (induction s rule: universal_newlines.induct)
  case 1
  show ?case by simp
next
  case (2 c cs)
  show ?case
  proof (cases "c = 13")
    case False
    with 2(3) show ?thesis by auto
  next
    case True
    show ?thesis
    proof (cases cs)
      case Nil
      with True show ?thesis by simp
    next
      case (Cons d ds)
      show ?thesis
      proof (cases "d = 10")
        case d: True
        from 2(1)[OF True Cons d] True Cons d show ?thesis by auto
      next
        case d: False
        from 2(2)[OF True Cons d] True Cons d show ?thesis by auto
      qed
    qed
  qed
qed

lemma file_text_good: "utf8_encode (file_text bs) \<noteq> None \<and> 13 \<notin> set (file_text bs)"
proof -
  obtain s where s: "utf8_decode Ignore (map unat bs) = Inr s"
    using decode_ignore_total by blast
  then have ft: "file_text bs = universal_newlines s" by (simp add: file_text_def read_text_def)
  have "list_all scalar s" using decode_scalar[OF s] .
  moreover have "scalar 10" by (simp add: scalar_def)
  ultimately have a: "list_all scalar (universal_newlines s)"
    using universal_newlines_set[of s] by (auto simp: list_all_iff)
  have "utf8_encode (universal_newlines s) \<noteq> None"
    by (rule iffD2[OF encode_scalar]) (rule a)
  moreover have "13 \<notin> set (universal_newlines s)" by (rule universal_newlines_no_cr)
  ultimately show ?thesis unfolding ft by (rule conjI)
qed

lemma to_doc_good: "unique_names es \<Longrightarrow> no_empty_dirs es \<Longrightarrow> good_items (to_doc es)"
proof (induction es rule: to_doc.induct)
  case 1
  show ?case by simp
next
  case (2 item node rest)
  then show ?case using file_text_good by (cases node) auto
qed

lemma file_text_encode_bytes:
  assumes "utf8_encode s \<noteq> None" "13 \<notin> set s"
  shows "file_text (encode_bytes s) = s"
proof -
  from assms(1) obtain bs where bs: "utf8_encode s = Some bs" by auto
  have "map unat (map of_nat bs :: byte list) = bs"
    using encode_bytes[OF bs] by (rule unat_of_nat_bytes)
  then have "read_text Ignore (encode_bytes s) = Inr (universal_newlines s)"
    using bs decode_encode[OF bs, of Ignore] by (simp add: read_text_def encode_bytes_def)
  then show ?thesis using assms(2) by (simp add: file_text_def universal_newlines_id)
qed

lemma to_doc_materialize: "good_items d \<Longrightarrow> to_doc (materialize d) = d"
proof (induction d rule: materialize.induct)
  case 1
  show ?case by simp
next
  case (2 name content rest)
  then show ?case by (cases content) (auto simp: file_text_encode_bytes)
qed

lemma materialize_unique: "good_items d \<Longrightarrow> unique_names (materialize d)"
proof (induction d rule: materialize.induct)
  case 1
  show ?case by simp
next
  case (2 name content rest)
  then show ?case by (cases content) auto
qed

section \<open>A second run with the same document\<close>

lemma read_text_encoded:
  assumes "utf8_encode s = Some enc"
  shows "read_text h (map of_nat enc) = Inr (universal_newlines s)"
proof -
  have "map unat (map of_nat enc :: byte list) = enc"
    using encode_bytes[OF assms] by (rule unat_of_nat_bytes)
  then show ?thesis using decode_encode[OF assms, of h] by (simp add: read_text_def)
qed

lemma write_text_result:
  "write_text p (JStr s) d = (None, d') \<Longrightarrow>
   \<exists>enc. utf8_encode s = Some enc \<and> lookup d' p = Some (File (map of_nat enc))"
  by (auto simp: write_text_def split: sum.splits option.splits dest: fs_write_result)

lemma update_settles:
  assumes "update_or_create_file p (JStr s) w = (None, w')" "13 \<notin> set s"
  shows "\<exists>bs. lookup (disk w') p = Some (File bs) \<and> read_text Strict bs = Inr s"
proof -
  have rd: "fs_read p d = Inr bs \<Longrightarrow> lookup d p = Some (File bs)" for d bs
    by (auto simp: fs_read_def split: option.splits fsnode.splits)
  have wr: "write_text p (JStr s) d = (None, d') \<Longrightarrow>
      \<exists>bs. lookup d' p = Some (File bs) \<and> read_text Strict bs = Inr s" for d d'
    using write_text_result[of p s d d'] read_text_encoded[of s _ Strict]
      universal_newlines_id[OF assms(2)] by auto
  show ?thesis
    using assms(1)
    by (auto simp: update_or_create_file_def Let_def logging_info_def
        split: if_splits sum.splits prod.splits option.splits
        dest!: wr rd)
qed

lemma update_settled:
  assumes "lookup (disk w) p = Some (File bs)" "read_text Strict bs = Inr s"
  shows "update_or_create_file p (JStr s) w = (None, w)"
proof -
  have dir: "os_path_exists (disk w) (butlast p)"
    using lookup_butlast[OF assms(1)] by (simp add: os_path_exists_def)
  have ex: "os_path_exists (disk w) p" using assms(1) by (simp add: os_path_exists_def)
  have rd: "fs_read p (disk w) = Inr bs" using assms(1) by (simp add: fs_read_def)
  show ?thesis using dir ex rd assms(2) by (simp add: update_or_create_file_def)
qed

lemma recurse_settled: "settled d P (disk w) \<Longrightarrow> recurse_plain d P w = (None, w)"
proof (induction d P w rule: recurse_plain.induct)
  case (1 current_path w)
  show ?case by simp
next
  case (2 name content rest P w)
  have h: "(case content of JDict d \<Rightarrow> recurse_plain d (P @ [name]) w
            | _ \<Rightarrow> update_or_create_file (P @ [name]) content w) = (None, w)"
  proof (cases content)
    case (JDict sub)
    with "2.prems" have "settled sub (P @ [name]) (disk w)" by simp
    from "2.IH"(1)[OF refl JDict this] JDict show ?thesis by simp
  next
    case (JStr s)
    with "2.prems" obtain bs where "lookup (disk w) (P @ [name]) = Some (File bs)"
      "read_text Strict bs = Inr s"
      by (auto split: option.splits fsnode.splits)
    from update_settled[OF this] JStr show ?thesis by simp
  qed (use "2.prems" in auto)
  have "settled rest P (disk w)" using "2.prems" by simp
  from "2.IH"(2)[OF refl h[symmetric] refl this] h show ?case by (simp add: Let_def)
qed

lemma settled_outside:
  "settled d P disk1 \<Longrightarrow> same_outside S disk1 disk2 \<Longrightarrow>
   (\<forall>q\<in>set (leaf_paths d P). \<forall>p\<in>S. \<not> prefix q p) \<Longrightarrow> settled d P disk2"
proof (induction d P disk1 rule: settled.induct)
  case (1 current_path d)
  show ?case by simp
next
  case (2 name content rest P disk1)
  have rest: "settled rest P disk2"
    using "2.IH"(2) "2.prems" by auto
  show ?case
  proof (cases content)
    case (JDict sub)
    with "2.prems" "2.IH"(1)[OF JDict] have "settled sub (P @ [name]) disk2" by auto
    with rest JDict show ?thesis by simp
  next
    case (JStr s)
    with "2.prems"(3) have "\<forall>p\<in>S. \<not> prefix (P @ [name]) p" by simp
    with "2.prems"(2) have "lookup disk2 (P @ [name]) = lookup disk1 (P @ [name])"
      unfolding same_outside_def by blast
    with "2.prems"(1) rest JStr show ?thesis by simp
  qed (use "2.prems"(1) in auto)
qed

lemma leaf_paths_key:
  "p \<in> set (leaf_paths d P) \<Longrightarrow> \<exists>name r. name \<in> fst ` set d \<and> p = P @ name # r"
proof (induction d P rule: leaf_paths.induct)
  case (1 current_path)
  then show ?case by simp
next
  case (2 name content rest P)
  show ?case
  proof (cases "p \<in> set (leaf_paths rest P)")
    case True
    from "2.IH"(2)[OF this] show ?thesis by auto
  next
    case False
    have "\<exists>r. p = P @ name # r"
    proof (cases content)
      case (JDict sub)
      with False "2.prems" have "p \<in> set (leaf_paths sub (P @ [name]))" by simp
      from leaf_paths_below[OF this] show ?thesis by auto
    qed (use False "2.prems" in auto)
    then show ?thesis by auto
  qed
qed

lemma first_run_settles:
  "recurse_plain d P w = (None, w') \<Longrightarrow> plain_items d \<Longrightarrow> settled d P (disk w')"
proof (induction d P w arbitrary: w' rule: recurse_plain.induct)
  case (1 current_path w)
  show ?case by simp
next
  case (2 name content rest P w)
  let ?ip = "P @ [name]"
  let ?h = "case content of JDict d \<Rightarrow> recurse_plain d ?ip w
            | _ \<Rightarrow> update_or_create_file ?ip content w"
  obtain r0 w0 where h: "?h = (r0, w0)" by (cases ?h) auto
  have r0: "r0 = None" using h "2.prems"(1) by (cases r0) (auto simp: Let_def)
  have rest: "recurse_plain rest P w0 = (None, w')"
    using h r0 "2.prems"(1) by (simp add: Let_def)
  have pr: "plain_items rest" "name \<notin> fst ` set rest" using "2.prems"(2) by auto
  have sr: "settled rest P (disk w')" using "2.IH"(2)[OF refl h[symmetric] r0 rest pr(1)] .
  have out: "same_outside (set (leaf_paths rest P)) (disk w0) (disk w')"
    using recurse_keeps_outside[OF rest] by simp
  have apart: "\<not> prefix q p" if "prefix ?ip q" "p \<in> set (leaf_paths rest P)" for q p
  proof
    assume "prefix q p"
    with that(1) have "prefix ?ip p" by (rule prefix_order.trans)
    moreover from leaf_paths_key[OF that(2)] obtain name' r where
      "name' \<in> fst ` set rest" "p = P @ name' # r" by blast
    ultimately show False using pr(2) by (auto simp: prefix_def)
  qed
  let ?one = "[(name, content)]"
  have head0: "settled ?one P (disk w0)"
  proof (cases content)
    case (JDict sub)
    with "2.prems"(2) have "plain_items sub" by simp
    from "2.IH"(1)[OF refl JDict _ this] h r0 JDict show ?thesis by simp
  next
    case (JStr s)
    with "2.prems"(2) have "13 \<notin> set s" by simp
    with update_settles[of ?ip s w w0] h r0 JStr show ?thesis by auto
  qed (use "2.prems"(2) in auto)
  have "\<forall>q\<in>set (leaf_paths ?one P). prefix ?ip q"
  proof (cases content)
    case (JDict sub)
    have "prefix ?ip q" if "q \<in> set (leaf_paths sub ?ip)" for q
    proof -
      from leaf_paths_below[OF that] obtain r where "q = ?ip @ r" by blast
      then show ?thesis by (simp add: prefix_def)
    qed
    with JDict show ?thesis by simp
  qed auto
  with apart have "\<forall>q\<in>set (leaf_paths ?one P). \<forall>p\<in>set (leaf_paths rest P). \<not> prefix q p"
    by blast
  from settled_outside[OF head0 out this] sr show ?case by simp
qed

section \<open>Documents whose keys are entry names\<close>

lemma join_entry_name:
  assumes "valid_name name"
  shows "os_path_join_components current_path name = current_path @ [name]"
proof -
  from assms have s: "split_sep name = [name]" and ne: "name \<noteq> []"
    and d: "name \<noteq> [46]" "name \<noteq> [46, 46]" and n47: "47 \<notin> set name"
    using split_sep_no_slash[of name] by (auto simp: valid_name_def)
  from ne n47 have "hd name \<noteq> 47" by (cases name) auto
  note ne = ne this
  show ?thesis using s ne d by (simp add: os_path_join_components_def)
qed

lemma recurse_entry_names:
  "entry_names d \<Longrightarrow> recurse_structure_loop d P w = recurse_plain d P w"
proof (induction d P w rule: recurse_plain.induct)
  case (1 P w)
  show ?case by simp
next
  case (2 name content rest P w)
  have j: "os_path_join_components P name = P @ [name]"
    using "2.prems" by (simp add: join_entry_name)
  let ?h = "case content of JDict d \<Rightarrow> recurse_plain d (P @ [name]) w
            | _ \<Rightarrow> update_or_create_file (P @ [name]) content w"
  have h: "(case content of JDict d \<Rightarrow> recurse_structure_loop d (P @ [name]) w
            | _ \<Rightarrow> update_or_create_file (P @ [name]) content w) = ?h"
  proof (cases content)
    case (JDict sub)
    with "2.prems" have "entry_names sub" by simp
    from "2.IH"(1)[OF refl JDict this] JDict show ?thesis by simp
  qed auto
  obtain r0 w0 where r: "?h = (r0, w0)" by (cases ?h) auto
  show ?case
  proof (cases r0)
    case None
    have "entry_names rest" using "2.prems" by simp
    from "2.IH"(2)[OF refl r[symmetric] None this] show ?thesis
      using h r None j by (simp add: Let_def)
  next
    case (Some e)
    then show ?thesis using h r j by (simp add: Let_def)
  qed
qed

lemma update_loaded:
  "loaded_document json_loads json_path (disk w) = Inr new_structure \<Longrightarrow>
   update_files_from_json json_loads directory_path json_path w
     = recurse_structure new_structure directory_path w"
  by (auto simp: loaded_document_def update_files_from_json_def split: sum.splits)

lemma update_not_loaded:
  "loaded_document json_loads json_path (disk w) = Inl e \<Longrightarrow>
   update_files_from_json json_loads directory_path json_path w = (Some e, w)"
  by (auto simp: loaded_document_def update_files_from_json_def split: sum.splits)

text \<open>
  When the keys of the document are entry names that differ in each dictionary and no
  content has a carriage return, a walk after a walk that returned writes nothing and
  logs nothing.
\<close>

lemma second_run_without_carriage_return:
  assumes "plain_items d" "entry_names d"
    and "recurse_structure (JDict d) directory_path w = (None, w1)"
  shows "recurse_structure (JDict d) directory_path w1 = (None, w1)"
proof -
  from assms(3) have "recurse_plain d directory_path w = (None, w1)"
    by (simp add: recurse_structure_def recurse_entry_names[OF assms(2)])
  from recurse_settled[OF first_run_settles[OF this assms(1)]]
  show ?thesis by (simp add: recurse_structure_def recurse_entry_names[OF assms(2)])
qed
section \<open>C2: directories of the document\<close>




section \<open>C3: a second run\<close>

text \<open>
  C3 asks for no write in a second run with the same document. The code writes again
  when a content holds a carriage return: the target \<open>t\<close> is an empty directory and the
  document is \<open>{"f": "a\r"}\<close>. The first run creates \<open>f\<close> with the bytes \<open>a\r\<close>. The second
  run reads them back in text mode as \<open>a\n\<close>, finds that different from \<open>a\r\<close>, writes
  the same bytes again and logs an update 1 -> 1. (For a document without carriage
  returns whose keys are entry names the second run does nothing, see \<open>second_run_without_carriage_return\<close>.)
\<close>

theorem second_run_rewrites_carriage_return:
  "recurse_structure (JDict [([102], JStr [97, 13])]) [[116]]
      \<lparr>disk = Dir [([116], Dir [])], logged = []\<rparr>
     = (None, \<lparr>disk = Dir [([116], Dir [([102], File [97, 13])])], logged = [FileCreated [[116], [102]]]\<rparr>) \<and>
   recurse_structure (JDict [([102], JStr [97, 13])]) [[116]]
      \<lparr>disk = Dir [([116], Dir [([102], File [97, 13])])], logged = [FileCreated [[116], [102]]]\<rparr>
     = (None, \<lparr>disk = Dir [([116], Dir [([102], File [97, 13])])],
               logged = [FileCreated [[116], [102]], FileUpdated [[116], [102]] 1 1]\<rparr>)"
  by (simp add: recurse_structure_def os_path_join_components_def update_or_create_file_def os_path_exists_def fs_read_def
        read_text_def write_text_def decode1 utf8_encode_char_def logging_info_def content_lines_def
        splitlines_def is_linebreak_def Let_def)

section \<open>C4: entries that the document does not name\<close>




section \<open>C8: documents of another shape\<close>

text \<open>
  C8 as stated fails: the code has no \<open>MalformedDocumentError\<close> and no check of the
  document, and the exception need not be one that the shape causes. The document
  \<open>{"a": {"b": 5}}\<close> is not of the shape, and where \<open>a\<close> is a file the walk fails with
  \<open>NotADirectoryError\<close> when it opens \<open>a/b\<close>, before the number is written.
\<close>

theorem malformed_document_fails_counterexample:
  "\<not> well_shaped (JDict [([97], JDict [([98], JNum 5)])]) \<and>
   recurse_structure (JDict [([97], JDict [([98], JNum 5)])]) [] \<lparr>disk = Dir [([97], File [])], logged = []\<rparr>
     = (Some NotADirectoryError, \<lparr>disk = Dir [([97], File [])], logged = []\<rparr>) \<and>
   \<not> malformed_document_error NotADirectoryError"
  by (simp add: well_shaped_def recurse_structure_def os_path_join_components_def
        update_or_create_file_def os_path_exists_def write_text_def malformed_document_error_def Let_def)

text \<open>
  C8, amended. Reconcile fails on every document that is not a dictionary of strings
  and dictionaries, and nothing checks the document before the walk:

  \<^item> when the file cannot be read or \<open>json.load\<close> cannot parse it, reconcile raises that
    exception and has changed nothing;
  \<^item> when the document is not a dictionary of strings and dictionaries, reconcile
    raises; when it is one, reconcile raises neither \<open>TypeError\<close> nor \<open>AttributeError\<close>
    nor \<open>JSONDecodeError\<close>;
  \<^item> a document that is not a dictionary raises \<open>AttributeError\<close> and nothing is changed;
  \<^item> a dictionary, with entry names as keys, that holds a value of another type is
    applied up to that value: if the walk of the part before the value raises, that is
    the outcome; otherwise the outcome is that of \<open>update_or_create_file\<close> on the value,
    in the state that the part before it has left. That call raises \<open>TypeError\<close> after
    it has made or emptied the file, or an exception of the file system or the codec
    before; it is \<open>TypeError\<close> when the path is a file with valid UTF-8 or is free in
    a directory that exists.
\<close>

theorem malformed_document_fails:
  "(loaded_document json_loads json_path (disk w) = Inl e \<longrightarrow>
      update_files_from_json json_loads directory_path json_path w = (Some e, w)) \<and>
   (loaded_document json_loads json_path (disk w) = Inr doc \<longrightarrow>
      (\<not> well_shaped doc \<longrightarrow>
         fst (update_files_from_json json_loads directory_path json_path w) \<noteq> None) \<and>
      (well_shaped doc \<longrightarrow>
         (\<forall>e'. fst (update_files_from_json json_loads directory_path json_path w) = Some e' \<longrightarrow>
            \<not> malformed_document_error e')) \<and>
      ((\<forall>d. doc \<noteq> JDict d) \<longrightarrow>
         update_files_from_json json_loads directory_path json_path w = (Some AttributeError, w)) \<and>
      (\<forall>d p content.
         doc = JDict d \<and> entry_names d \<and> first_other d directory_path = Some (p, content) \<longrightarrow>
         (\<exists>e' w2.
            update_files_from_json json_loads directory_path json_path w = (Some e', w2) \<and>
            (case recurse_structure (JDict (before_other d)) directory_path w of
               (Some e1, w1) \<Rightarrow> e' = e1 \<and> w2 = w1
             | (None, w1) \<Rightarrow>
                 update_or_create_file p content w1 = (Some e', w2) \<and>
                 (e' = TypeError \<and> lookup (disk w2) p = Some (File []) \<or> io_error e') \<and>
                 (can_open (disk w1) p \<longrightarrow> e' = TypeError)))))"
proof (intro conjI impI)
  assume "loaded_document json_loads json_path (disk w) = Inl e"
  then show "update_files_from_json json_loads directory_path json_path w = (Some e, w)"
    by (rule update_not_loaded)
next
  assume l: "loaded_document json_loads json_path (disk w) = Inr doc"
  note u = update_loaded[OF l, of directory_path]
  {
    assume "\<not> well_shaped doc"
    then show "fst (update_files_from_json json_loads directory_path json_path w) \<noteq> None"
      unfolding u using recurse_ill_shaped[of _ directory_path w]
      by (cases doc) (auto simp: well_shaped_def recurse_structure_def)
  }
  {
    assume ws: "well_shaped doc"
    then obtain d where d: "doc = JDict d" "well_shaped_items d"
      by (cases doc) (auto simp: well_shaped_def)
    show "\<forall>e'. fst (update_files_from_json json_loads directory_path json_path w) = Some e' \<longrightarrow>
            \<not> malformed_document_error e'"
    proof (intro allI impI)
      fix e'
      assume "fst (update_files_from_json json_loads directory_path json_path w) = Some e'"
      then have "recurse_structure_loop d directory_path w
          = (Some e', snd (recurse_structure_loop d directory_path w))"
        unfolding u by (cases "recurse_structure_loop d directory_path w")
          (auto simp: d recurse_structure_def)
      from recurse_well_shaped[OF d(2) this] show "\<not> malformed_document_error e'" .
    qed
  }
  {
    assume "\<forall>d. doc \<noteq> JDict d"
    then show "update_files_from_json json_loads directory_path json_path w = (Some AttributeError, w)"
      unfolding u by (cases doc) (auto simp: recurse_structure_def)
  }
  show "\<forall>d p content.
         doc = JDict d \<and> entry_names d \<and> first_other d directory_path = Some (p, content) \<longrightarrow>
         (\<exists>e' w2.
            update_files_from_json json_loads directory_path json_path w = (Some e', w2) \<and>
            (case recurse_structure (JDict (before_other d)) directory_path w of
               (Some e1, w1) \<Rightarrow> e' = e1 \<and> w2 = w1
             | (None, w1) \<Rightarrow>
                 update_or_create_file p content w1 = (Some e', w2) \<and>
                 (e' = TypeError \<and> lookup (disk w2) p = Some (File []) \<or> io_error e') \<and>
                 (can_open (disk w1) p \<longrightarrow> e' = TypeError)))"
  proof (intro allI impI, elim conjE)
    fix d p content
    assume d: "doc = JDict d" and f: "first_other d directory_path = Some (p, content)"
    note eq = walk_to_first_other[OF f, of w]
    obtain r1 w1 where b: "recurse_structure_loop (before_other d) directory_path w = (r1, w1)"
      by (cases "recurse_structure_loop (before_other d) directory_path w") auto
    show "\<exists>e' w2.
            update_files_from_json json_loads directory_path json_path w = (Some e', w2) \<and>
            (case recurse_structure (JDict (before_other d)) directory_path w of
               (Some e1, w1) \<Rightarrow> e' = e1 \<and> w2 = w1
             | (None, w1) \<Rightarrow>
                 update_or_create_file p content w1 = (Some e', w2) \<and>
                 (e' = TypeError \<and> lookup (disk w2) p = Some (File []) \<or> io_error e') \<and>
                 (can_open (disk w1) p \<longrightarrow> e' = TypeError))"
    proof (cases r1)
      case (Some e1)
      with eq b show ?thesis unfolding u by (simp add: d recurse_structure_def)
    next
      case None
      from update_other_value[OF first_other_value[OF f], of p w1] obtain e' w2 where
        "update_or_create_file p content w1 = (Some e', w2)"
        "e' = TypeError \<and> lookup (disk w2) p = Some (File []) \<or> io_error e'"
        "can_open (disk w1) p \<longrightarrow> e' = TypeError" by blast
      with eq b None show ?thesis unfolding u by (simp add: d recurse_structure_def)
    qed
  qed
qed

text \<open>
  The theorem at three files \<open>j\<close> and the empty target \<open>t\<close>. The document
  \<open>{"a": "x", "b": 5}\<close>: the file \<open>a\<close> is written, the file \<open>b\<close> is made and left
  empty, and \<open>TypeError\<close> is raised. The document \<open>[]\<close>: \<open>AttributeError\<close>. A text that
  the parser rejects: its exception.
\<close>

theorem malformed_document_fails_witness:
  "update_files_from_json
      (parses_only [123, 34, 97, 34, 58, 32, 34, 120, 34, 44, 32, 34, 98, 34, 58, 32, 53, 125]
         (JDict [([97], JStr [120]), ([98], JNum 5)]))
      [[116]] [[106]]
      \<lparr>disk = Dir [([116], Dir []),
                    ([106], File [123, 34, 97, 34, 58, 32, 34, 120, 34, 44, 32, 34, 98, 34, 58, 32, 53, 125])],
       logged = []\<rparr>
     = (Some TypeError,
        \<lparr>disk = Dir [([116], Dir [([97], File [120]), ([98], File [])]),
                     ([106], File [123, 34, 97, 34, 58, 32, 34, 120, 34, 44, 32, 34, 98, 34, 58, 32, 53, 125])],
         logged = [FileCreated [[116], [97]]]\<rparr>) \<and>
   update_files_from_json (parses_only [91, 93] (JList [])) [[116]] [[106]]
      \<lparr>disk = Dir [([116], Dir []), ([106], File [91, 93])], logged = []\<rparr>
     = (Some AttributeError, \<lparr>disk = Dir [([116], Dir []), ([106], File [91, 93])], logged = []\<rparr>) \<and>
   update_files_from_json (parses_only [91, 93] (JList [])) [[116]] [[106]]
      \<lparr>disk = Dir [([116], Dir []), ([106], File [91])], logged = []\<rparr>
     = (Some JSONDecodeError, \<lparr>disk = Dir [([116], Dir []), ([106], File [91])], logged = []\<rparr>)"
proof -
  let ?text = "[123, 34, 97, 34, 58, 32, 34, 120, 34, 44, 32, 34, 98, 34, 58, 32, 53, 125]"
  let ?d = "[([97], JStr [120]), ([98], JNum 5)]"
  let ?w = "\<lparr>disk = Dir [([116], Dir []), ([106], File ?text)], logged = []\<rparr>"
  let ?w1 = "\<lparr>disk = Dir [([116], Dir [([97], File [120])]), ([106], File ?text)],
             logged = [FileCreated [[116], [97]]]\<rparr>"
  have l: "loaded_document (parses_only ?text (JDict ?d)) [[106]] (disk ?w) = Inr (JDict ?d)"
    by (simp add: loaded_document_def fs_read_def read_text_def decode1 parses_only_def)
  have k: "entry_names ?d" by (simp add: valid_name_def)
  have f: "first_other ?d [[116]] = Some ([[116], [98]], JNum 5)"
    by (simp add: os_path_join_components_def)
  have b: "recurse_structure (JDict (before_other ?d)) [[116]] ?w = (None, ?w1)"
    by (simp add: recurse_structure_def os_path_join_components_def update_or_create_file_def
        os_path_exists_def write_text_def utf8_encode_char_def logging_info_def Let_def)
  have c: "update_or_create_file [[116], [98]] (JNum 5) ?w1
    = (Some TypeError,
       \<lparr>disk = Dir [([116], Dir [([97], File [120]), ([98], File [])]), ([106], File ?text)],
        logged = [FileCreated [[116], [97]]]\<rparr>)"
    by (simp add: update_or_create_file_def os_path_exists_def write_text_def Let_def)
  from malformed_document_fails[of "parses_only ?text (JDict ?d)" "[[106]]" ?w _ "[[116]]" "JDict ?d"] l
  have "\<forall>d p content.
         JDict ?d = JDict d \<and> entry_names d \<and> first_other d [[116]] = Some (p, content) \<longrightarrow>
         (\<exists>e' w2.
            update_files_from_json (parses_only ?text (JDict ?d)) [[116]] [[106]] ?w = (Some e', w2) \<and>
            (case recurse_structure (JDict (before_other d)) [[116]] ?w of
               (Some e1, w1) \<Rightarrow> e' = e1 \<and> w2 = w1
             | (None, w1) \<Rightarrow>
                 update_or_create_file p content w1 = (Some e', w2) \<and>
                 (e' = TypeError \<and> lookup (disk w2) p = Some (File []) \<or> io_error e') \<and>
                 (can_open (disk w1) p \<longrightarrow> e' = TypeError)))"
    by blast
  from this[rule_format, of ?d "[[116], [98]]" "JNum 5", OF conjI[OF refl conjI[OF k f]]]
  obtain e' w2 where r:
    "update_files_from_json (parses_only ?text (JDict ?d)) [[116]] [[106]] ?w = (Some e', w2)"
    "case recurse_structure (JDict (before_other ?d)) [[116]] ?w of
       (Some e1, w1) \<Rightarrow> e' = e1 \<and> w2 = w1
     | (None, w1) \<Rightarrow>
         update_or_create_file [[116], [98]] (JNum 5) w1 = (Some e', w2) \<and>
         (e' = TypeError \<and> lookup (disk w2) [[116], [98]] = Some (File []) \<or> io_error e') \<and>
         (can_open (disk w1) [[116], [98]] \<longrightarrow> e' = TypeError)"
    by (elim exE conjE) (rule that, assumption+)
  from r(2) have "update_or_create_file [[116], [98]] (JNum 5) ?w1 = (Some e', w2)"
    unfolding b by simp
  with c r(1) have 1: "update_files_from_json (parses_only ?text (JDict ?d)) [[116]] [[106]] ?w
     = (Some TypeError,
        \<lparr>disk = Dir [([116], Dir [([97], File [120]), ([98], File [])]), ([106], File ?text)],
         logged = [FileCreated [[116], [97]]]\<rparr>)" by simp
  let ?v = "\<lparr>disk = Dir [([116], Dir []), ([106], File [91, 93])], logged = []\<rparr>"
  have l2: "loaded_document (parses_only [91, 93] (JList [])) [[106]] (disk ?v) = Inr (JList [])"
    by (simp add: loaded_document_def fs_read_def read_text_def decode1 parses_only_def)
  from malformed_document_fails[of "parses_only [91, 93] (JList [])" "[[106]]" ?v _ "[[116]]" "JList []"] l2
  have 2: "update_files_from_json (parses_only [91, 93] (JList [])) [[116]] [[106]] ?v
     = (Some AttributeError, ?v)" by simp
  let ?u = "\<lparr>disk = Dir [([116], Dir []), ([106], File [91])], logged = []\<rparr>"
  have l3: "loaded_document (parses_only [91, 93] (JList [])) [[106]] (disk ?u) = Inl JSONDecodeError"
    by (simp add: loaded_document_def fs_read_def read_text_def decode1 parses_only_def)
  from malformed_document_fails[of "parses_only [91, 93] (JList [])" "[[106]]" ?u JSONDecodeError "[[116]]"] l3
  have 3: "update_files_from_json (parses_only [91, 93] (JList [])) [[116]] [[106]] ?u
     = (Some JSONDecodeError, ?u)" by simp
  from 1 2 3 show ?thesis by simp
qed

section \<open>C9: reconcile decodes strictly\<close>

text \<open>
  C9. When the path of a leaf is a file on disk, \<open>update_or_create_file\<close> reads it with
  the strict decoder: if its bytes are not valid UTF-8 the call raises
  \<open>UnicodeDecodeError\<close> and changes nothing, although the lossy decoder of capture
  accepts the same bytes. So reconcile can fail on a tree that capture processes: a
  directory \<open>t\<close> whose file \<open>f\<close> is the byte 0xFF is captured as \<open>{"f": ""}\<close>, and
  reconciling \<open>t\<close> with that very document fails.
\<close>

theorem reconcile_decodes_strictly:
  assumes "lookup (disk w) file_path = Some (File bs)" and "read_text Strict bs = Inl e"
  shows "update_or_create_file file_path content w = (Some UnicodeDecodeError, w) \<and>
         (\<exists>s. read_text Ignore bs = Inr s) \<and>
         capture fnmatch (Dir [([116], Dir [([102], File [255])])]) [[116]] [] = Inr [([102], JStr [])] \<and>
         recurse_structure (JDict [([102], JStr [])]) [[116]]
             \<lparr>disk = Dir [([116], Dir [([102], File [255])])], logged = []\<rparr>
           = (Some UnicodeDecodeError, \<lparr>disk = Dir [([116], Dir [([102], File [255])])], logged = []\<rparr>)"
proof -
  have dir: "os_path_exists (disk w) (butlast file_path)"
    using lookup_butlast[OF assms(1)] by (simp add: os_path_exists_def)
  have ex: "os_path_exists (disk w) file_path" using assms(1) by (simp add: os_path_exists_def)
  have rd: "fs_read file_path (disk w) = Inr bs" using assms(1) by (simp add: fs_read_def)
  have e: "e = UnicodeDecodeError" using assms(2) by (rule read_text_error_kind)
  have 1: "update_or_create_file file_path content w = (Some UnicodeDecodeError, w)"
    using dir ex rd assms(2) e by (simp add: update_or_create_file_def)
  have d: "utf8_decode h [255] = bad h (Inr [])" for h by (simp add: utf8_decode.simps(2))
  have 3: "capture fnmatch (Dir [([116], Dir [([102], File [255])])]) [[116]] [] = Inr [([102], JStr [])]"
    by (simp add: capture_def directory_to_dict_def should_exclude_def read_text_def d)
  have 4: "recurse_structure (JDict [([102], JStr [])]) [[116]]
             \<lparr>disk = Dir [([116], Dir [([102], File [255])])], logged = []\<rparr>
           = (Some UnicodeDecodeError, \<lparr>disk = Dir [([116], Dir [([102], File [255])])], logged = []\<rparr>)"
    by (simp add: recurse_structure_def os_path_join_components_def update_or_create_file_def os_path_exists_def fs_read_def
          read_text_def d)
  show ?thesis using 1 3 4 read_text_ignore_total by blast
qed

text \<open>The theorem at a file that holds the byte 0xFF.\<close>

theorem reconcile_decodes_strictly_witness:
  "update_or_create_file [[102]] (JStr [97]) \<lparr>disk = Dir [([102], File [255])], logged = []\<rparr>
     = (Some UnicodeDecodeError, \<lparr>disk = Dir [([102], File [255])], logged = []\<rparr>)"
proof -
  have h1: "lookup (disk \<lparr>disk = Dir [([102], File [255])], logged = []\<rparr>) [[102]] = Some (File [255])"
    by simp
  have h2: "read_text Strict [255] = Inl UnicodeDecodeError"
    by (simp add: read_text_def utf8_decode.simps(2))
  from reconcile_decodes_strictly[OF h1 h2] show ?thesis by blast
qed

section \<open>C10: line counts of an update\<close>

text \<open>
  C10, amended. \<open>splitlines\<close> does not count a final line boundary: \<open>a\<close> and \<open>a\n\<close>
  both have one line. When the file on disk and the content of the document differ only
  in one final newline, and the shorter of the two is not empty and does not itself end
  in a line boundary, \<open>update_or_create_file\<close> overwrites the file and logs an update
  whose old and new line counts are equal.
\<close>

theorem updated_line_counts:
  assumes "lookup (disk w) file_path = Some (File bs)"
    and "read_text Strict bs = Inr old_content"
    and "utf8_encode new_content = Some enc"
    and "s \<noteq> []" and "\<not> is_linebreak (last s)"
    and "old_content = s \<and> new_content = s @ [10] \<or> old_content = s @ [10] \<and> new_content = s"
  shows "length (splitlines [97]) = 1 \<and> length (splitlines [97, 10]) = 1 \<and>
         (\<exists>w'. update_or_create_file file_path (JStr new_content) w = (None, w') \<and>
            lookup (disk w') file_path = Some (File (map of_nat enc)) \<and>
            logged w' = logged w @
              [FileUpdated file_path (length (splitlines s)) (length (splitlines s))])"
proof -
  have ne: "old_content \<noteq> new_content" using assms(6) by auto
  have l: "length (splitlines old_content) = length (splitlines s)"
          "length (splitlines new_content) = length (splitlines s)"
    using assms(6) splitlines_newline[OF assms(4,5)] by auto
  have "length (splitlines [97]) = 1 \<and> length (splitlines [97, 10]) = 1"
    by (simp add: splitlines_def is_linebreak_def)
  then show ?thesis
    using update_existing_file[OF assms(1,2,3) ne] l by auto
qed

text \<open>The theorem at a file holding \<open>a\<close> and the content \<open>a\n\<close>: an update 1 -> 1.\<close>

theorem updated_line_counts_witness:
  "\<exists>w'. update_or_create_file [[102]] (JStr [97, 10]) \<lparr>disk = Dir [([102], File [97])], logged = []\<rparr> = (None, w') \<and>
      lookup (disk w') [[102]] = Some (File [97, 10]) \<and>
      logged w' = [FileUpdated [[102]] 1 1]"
proof -
  have h1: "lookup (disk \<lparr>disk = Dir [([102], File [97])], logged = []\<rparr>) [[102]] = Some (File [97])"
    by simp
  have h2: "read_text Strict [97] = Inr [97]" by (simp add: read_text_def decode1)
  have h3: "utf8_encode [97, 10] = Some [97, 10]" by (simp add: utf8_encode_char_def)
  have h4: "[97] \<noteq> ([]::pystr)" by simp
  have h5: "\<not> is_linebreak (last [97])" by (simp add: is_linebreak_def)
  have h6: "[97] = [97] \<and> [97, 10] = [97] @ [10] \<or> [97] = [97] @ [10] \<and> [97, 10] = ([97]::pystr)"
    by simp
  have n: "length (splitlines [97]) = 1" by (simp add: splitlines_def is_linebreak_def)
  from updated_line_counts[OF h1 h2 h3 h4 h5 h6] show ?thesis unfolding n by simp
qed

text \<open>
  Without the side condition the counts differ: an empty file and the content \<open>\n\<close>
  differ only in a final newline, and the update is logged as 0 -> 1.
\<close>

theorem updated_line_counts_counterexample:
  "update_or_create_file [[102]] (JStr [10]) \<lparr>disk = Dir [([102], File [])], logged = []\<rparr>
     = (None, \<lparr>disk = Dir [([102], File [10])], logged = [FileUpdated [[102]] 0 1]\<rparr>)"
  by (simp add: update_or_create_file_def os_path_exists_def fs_read_def read_text_def write_text_def
        utf8_encode_char_def logging_info_def content_lines_def splitlines_def is_linebreak_def)

end
